theory Spec2Isabelle
  imports Complex_Main "HOL-Library.AList"
begin

section \<open>Strings, code points and the Unicode block table\<close>

text \<open>
  A Python \<open>str\<close> is a sequence of Unicode code points, and \<open>ord\<close> reads one of them
  as an integer. Tokens, language codes, column names and file paths are all Python
  strings, so all of them are lists of code points here. \<open>lit\<close> writes an ASCII literal.
\<close>

type_synonym pystr = "nat list"

definition lit :: "string \<Rightarrow> pystr" where
  "lit s = map of_char s"

text \<open>Python's truth value of a string: the empty string is false.\<close>

definition truthy :: "pystr \<Rightarrow> bool" where
  "truthy s = (s \<noteq> [])"

text \<open>
  \<open>UNICODE_RANGES\<close>: a dict literal, so its iteration order is the order of declaration.
  Every \<open>range(start, stop)\<close> is kept as the pair \<open>(start, stop)\<close>: inclusive start,
  exclusive stop.
\<close>

definition UNICODE_RANGES :: "(pystr \<times> (nat \<times> nat) list) list" where
  "UNICODE_RANGES =
    [(lit ''hi'',  [(0x0900, 0x0980)]),
     (lit ''gu'',  [(0x0A80, 0x0B00)]),
     (lit ''pa'',  [(0x0A00, 0x0A80)]),
     (lit ''bn'',  [(0x0980, 0x0A00)]),
     (lit ''or'',  [(0x0B00, 0x0B80)]),
     (lit ''tam'', [(0x0B80, 0x0C00)]),
     (lit ''te'',  [(0x0C00, 0x0C80)]),
     (lit ''kn'',  [(0x0C80, 0x0D00)]),
     (lit ''ml'',  [(0x0D00, 0x0D80)]),
     (lit ''ur'',  [(0x0600, 0x0700), (0x0750, 0x0780)]),
     (lit ''en'',  [(0x0000, 0x0080), (0x0080, 0x0100)])]"

text \<open>
  \<open>_ASCII = set(map(ord, string.printable))\<close>. The standard library's
  \<open>string.printable\<close> is digits, ASCII letters, punctuation and whitespace, in this
  order; its ordinals are listed here group by group.
\<close>

definition printable_ords :: "nat list" where
  "printable_ords =
     [48 ..< 58] @ [97 ..< 123] @ [65 ..< 91]
     @ [33 ..< 48] @ [58 ..< 65] @ [91 ..< 97] @ [123 ..< 127]
     @ [32, 9, 10, 13, 11, 12]"

definition ASCII :: "nat set" where
  "ASCII = set printable_ords"

section \<open>Low-level helpers\<close>

text \<open>\<open>cp in r\<close> for some \<open>r\<close> of \<open>ranges\<close>, tried in their declared order.\<close>

fun in_ranges :: "nat \<Rightarrow> (nat \<times> nat) list \<Rightarrow> bool" where
  "in_ranges cp [] = False"
| "in_ranges cp ((start, stop) # rs) =
     (if start \<le> cp \<and> cp < stop then True else in_ranges cp rs)"

text \<open>The two nested loops of \<open>_char_lang\<close> over the items of the table.\<close>

fun table_lang :: "(pystr \<times> (nat \<times> nat) list) list \<Rightarrow> nat \<Rightarrow> pystr option" where
  "table_lang [] cp = None"
| "table_lang ((lang, ranges) # rest) cp =
     (if in_ranges cp ranges then Some lang else table_lang rest cp)"

definition char_lang :: "nat \<Rightarrow> pystr option" where
  "char_lang cp =
     (if cp \<in> ASCII then Some (lit ''en'') else table_lang UNICODE_RANGES cp)"

text \<open>
  \<open>_iter_significant\<close> is a generator; the list of everything it yields is the text
  without spaces, controls and the band U+2000 to U+200F.
\<close>

definition skipped :: "nat \<Rightarrow> bool" where
  "skipped cp = (cp \<le> 0x0020 \<or> (0x2000 \<le> cp \<and> cp \<le> 0x200F))"

definition iter_significant :: "pystr \<Rightarrow> nat list" where
  "iter_significant text = filter (\<lambda>cp. \<not> skipped cp) text"

section \<open>The detector\<close>

text \<open>
  The dataclass \<open>ScriptDetector\<close>. \<open>cache_file\<close> is a string or \<open>None\<close>; \<open>cache\<close> is
  the dict \<open>_cache\<close> (only looked up and stored into by key, so a map), \<open>dirty\<close> is
  \<open>_dirty\<close>. Nothing validates \<open>sample_chars\<close>: it is any Python int.
\<close>

record detector =
  sample_chars :: int
  default_code :: pystr
  cache_file :: "pystr option"
  cache :: "pystr \<rightharpoonup> pystr"
  dirty :: bool

text \<open>
  The dict \<open>counts\<close> of \<open>detect\<close>. Its iteration order decides the result of \<open>max\<close>, so
  it is an association list in insertion order: a new key goes to the end, a key that is
  already there keeps its place. \<open>counts.get(lang, 0)\<close> is \<open>counts_get\<close>.
\<close>

type_synonym counts = "(pystr \<times> nat) list"

definition counts_get :: "counts \<Rightarrow> pystr \<Rightarrow> nat" where
  "counts_get counts lang = (case map_of counts lang of Some c \<Rightarrow> c | None \<Rightarrow> 0)"

definition bump :: "counts \<Rightarrow> pystr \<Rightarrow> counts" where
  "bump counts lang = AList.update lang (counts_get counts lang + 1) counts"

text \<open>One pass of the loop body: \<open>lang = _char_lang(cp); if lang: counts[lang] = ...\<close>.\<close>

definition count_char :: "counts \<Rightarrow> nat \<Rightarrow> counts" where
  "count_char counts cp =
     (case char_lang cp of
        Some lang \<Rightarrow> if truthy lang then bump counts lang else counts
      | None \<Rightarrow> counts)"

text \<open>
  The \<open>for\<close> loop of \<open>detect\<close> over the significant code points, with its \<open>break\<close>:
  the bound is tested after the character has been counted. \<open>tot\<close> is the source's
  \<open>total\<close>.
\<close>

fun scan :: "int \<Rightarrow> nat list \<Rightarrow> counts \<Rightarrow> nat \<Rightarrow> counts \<times> nat" where
  "scan n [] counts tot = (counts, tot)"
| "scan n (cp # cps) counts tot =
     (let tot' = tot + 1;
          counts' = count_char counts cp
      in if int tot' \<ge> n then (counts', tot') else scan n cps counts' tot')"

text \<open>
  \<open>max(counts, key=counts.get)\<close>: Python's \<open>max\<close> walks the keys in the dict's order and
  replaces its candidate only by a strictly greater one.
\<close>

fun max_from :: "pystr \<Rightarrow> nat \<Rightarrow> counts \<Rightarrow> pystr" where
  "max_from best bv [] = best"
| "max_from best bv ((k, v) # rest) =
     (if v > bv then max_from k v rest else max_from best bv rest)"

text \<open>
  Lines 131 to 143 of \<open>detect\<close>. The score is a Python float, the correctly rounded
  quotient of two ints; it is the exact quotient here, which is the same number whenever
  that quotient is a float (as 0, 1/2 and 1 are).
\<close>

definition detect_scan :: "detector \<Rightarrow> pystr \<Rightarrow> pystr \<times> rat" where
  "detect_scan self text =
     (case scan (sample_chars self) (iter_significant text) [] 0 of
        ([], tot) \<Rightarrow> (default_code self, 0)
      | ((k, v) # rest, tot) \<Rightarrow>
          (let winner = max_from k v rest
           in (winner, of_nat (counts_get ((k, v) # rest) winner) / of_nat tot)))"

text \<open>\<open>detect\<close>: the argument is a string or \<open>None\<close>.\<close>

definition detect :: "detector \<Rightarrow> pystr option \<Rightarrow> pystr \<times> rat" where
  "detect self text =
     (case text of
        None \<Rightarrow> (default_code self, 0)
      | Some t \<Rightarrow>
          if \<not> truthy t then (default_code self, 0)
          else (case cache self t of
                  Some cached \<Rightarrow> if truthy cached then (cached, 1) else detect_scan self t
                | None \<Rightarrow> detect_scan self t))"

section \<open>Notions used to state the properties\<close>

text \<open>A code point lies in one of the ranges the table declares for the language \<open>L\<close>.\<close>

definition in_lang :: "pystr \<Rightarrow> nat \<Rightarrow> bool" where
  "in_lang L cp = (case map_of UNICODE_RANGES L of Some rs \<Rightarrow> in_ranges cp rs | None \<Rightarrow> False)"

text \<open>
  The significant code points the loop of \<open>detect\<close> reads before it ends or breaks: the
  bound is tested after a character has been counted, so a bound below 1 still lets one
  character through.
\<close>

definition scanned :: "detector \<Rightarrow> pystr \<Rightarrow> nat list" where
  "scanned self text = take (max 1 (nat (sample_chars self))) (iter_significant text)"

text \<open>The languages of the code points that \<open>_char_lang\<close> resolves, in their order.\<close>

definition resolved :: "nat list \<Rightarrow> pystr list" where
  "resolved cps = List.map_filter char_lang cps"

text \<open>The highest number of occurrences of one language in a list of languages.\<close>

definition max_count :: "pystr list \<Rightarrow> nat" where
  "max_count ls = Max (set (map (count_list ls) ls))"

text \<open>The distinct elements of a list in the order of their first appearance.\<close>

fun unique_from :: "'a list \<Rightarrow> 'a list \<Rightarrow> 'a list" where
  "unique_from seen [] = []"
| "unique_from seen (x # xs) =
     (if x \<in> set seen then unique_from seen xs else x # unique_from (x # seen) xs)"

definition unique :: "'a list \<Rightarrow> 'a list" where
  "unique xs = unique_from [] xs"

text \<open>
  The fields a new \<open>ScriptDetector\<close> has when \<open>__post_init__\<close> starts: the three
  parameters, an empty \<open>_cache\<close> and \<open>_dirty = False\<close>.
\<close>

definition new_detector :: "int \<Rightarrow> pystr \<Rightarrow> pystr option \<Rightarrow> detector" where
  "new_detector n code file =
     \<lparr>sample_chars = n, default_code = code, cache_file = file,
      cache = Map.empty, dirty = False\<rparr>"

text \<open>
  The tie-break in the words of the specification: the first language, in the order the
  table declares them, among those with the highest count.
\<close>

definition table_order_winner :: "pystr list \<Rightarrow> pystr option" where
  "table_order_winner ls =
     find (\<lambda>l. count_list ls l = max_count ls) (map fst UNICODE_RANGES)"

text \<open>
  The language of the earliest resolved character whose language has the highest count.
\<close>

definition first_seen_winner :: "pystr list \<Rightarrow> pystr option" where
  "first_seen_winner ls = find (\<lambda>l. count_list ls l = max_count ls) ls"

section \<open>The cache, its snapshot file and the frames\<close>

text \<open>The exceptions that leave the constructor and \<open>annotate_frame\<close>.\<close>

datatype error = UnicodeDecodeError | TypeError | KeyError pystr | ImportError

text \<open>
  What a regular file holds, as far as the constructor can tell. The standard library
  reads and parses it, so a content is classified by what \<open>read_text\<close> and
  \<open>json.loads\<close> make of it:
  \<^item> \<open>NotUTF8\<close>: bytes that are not valid UTF-8, \<open>read_text\<close> raises
    \<open>UnicodeDecodeError\<close>;
  \<^item> \<open>NotJSON\<close>: text that \<open>json.loads\<close> rejects with \<open>JSONDecodeError\<close>;
  \<^item> \<open>JsonDict m\<close>: a JSON object with string values, parsed to the dict \<open>m\<close> (what
    \<open>_flush_cache\<close> writes);
  \<^item> \<open>JsonScalar\<close>: the JSON text \<open>null\<close>, \<open>true\<close>, \<open>false\<close> or a number, parsed to a
    value that is not iterable, so that \<open>dict.update\<close> raises \<open>TypeError\<close>.
  JSON arrays, JSON strings and objects with other values are left out of the model.
  The encoding name in the source is written with U+2011 for the hyphen; Python's codec
  lookup normalises it to \<open>utf_8\<close>.
\<close>

datatype content = NotUTF8 | NotJSON | JsonDict "pystr \<rightharpoonup> pystr" | JsonScalar

text \<open>
  \<open>__post_init__\<close>, on the file system \<open>fs\<close> (a path that is no regular file maps to
  \<open>None\<close>). Only \<open>JSONDecodeError\<close> is caught.
\<close>

definition post_init :: "(pystr \<rightharpoonup> content) \<Rightarrow> detector \<Rightarrow> error + detector" where
  "post_init fs self =
     (case cache_file self of
        None \<Rightarrow> Inr self
      | Some path \<Rightarrow>
          if \<not> truthy path then Inr self
          else (case fs path of
                  None \<Rightarrow> Inr self
                | Some NotUTF8 \<Rightarrow> Inl UnicodeDecodeError
                | Some NotJSON \<Rightarrow> Inr self
                | Some (JsonDict m) \<Rightarrow> Inr (self\<lparr>cache := cache self ++ m\<rparr>)
                | Some JsonScalar \<Rightarrow> Inl TypeError))"

text \<open>The constructor call \<open>ScriptDetector(sample_chars, default_code, cache_file)\<close>.\<close>

definition ScriptDetector ::
  "(pystr \<rightharpoonup> content) \<Rightarrow> int \<Rightarrow> pystr \<Rightarrow> pystr option \<Rightarrow> error + detector" where
  "ScriptDetector fs n code file = post_init fs (new_detector n code file)"

text \<open>
  A cell of a \<open>DataFrame\<close> is a string, the missing value \<open>NaN\<close> or some other object;
  a frame is the list of its columns, in order, each with its cells. \<open>astype(str)\<close>
  turns every cell into a string; \<open>str_of\<close> stands for Python's \<open>str\<close> on the other
  objects.
\<close>

datatype 'o cell = Str pystr | NaN | Obj 'o

type_synonym 'o frame = "(pystr \<times> 'o cell list) list"

definition astype_str :: "('o \<Rightarrow> pystr) \<Rightarrow> 'o cell \<Rightarrow> pystr" where
  "astype_str str_of c = (case c of Str s \<Rightarrow> s | NaN \<Rightarrow> lit ''nan'' | Obj x \<Rightarrow> str_of x)"

text \<open>
  The effects of the detector that can be observed from outside, in the order in which
  they happen: a call of \<open>detect\<close> made by \<open>annotate_frame\<close>, an \<open>_add_to_cache\<close>, a
  \<open>write_text\<close> of the snapshot (with the dict it serialises), and an assignment to a
  column of a frame.
\<close>

datatype event =
    Detect pystr
  | Insert pystr pystr
  | Write pystr "pystr \<rightharpoonup> pystr"
  | SetColumn pystr

text \<open>
  The state the methods work on: the detector object, the file system, the frames on
  the heap (a frame is passed and returned by reference), whether \<open>import pandas\<close>
  succeeded, and the log of the events so far.
\<close>

record 'o world =
  det :: detector
  files :: "pystr \<rightharpoonup> content"
  frames :: "nat \<Rightarrow> 'o frame"
  pandas :: bool
  trace :: "event list"

text \<open>
  \<open>_add_to_cache\<close> and \<open>_flush_cache\<close>. The write of the snapshot is taken to
  succeed; afterwards the file holds the JSON object of the cache.
\<close>

definition add_to_cache :: "pystr \<Rightarrow> pystr \<Rightarrow> 'o world \<Rightarrow> 'o world" where
  "add_to_cache phrase lang w =
     w\<lparr>det := (det w)\<lparr>cache := (cache (det w))(phrase \<mapsto> lang), dirty := True\<rparr>,
       trace := trace w @ [Insert phrase lang]\<rparr>"

definition flush_cache :: "'o world \<Rightarrow> 'o world" where
  "flush_cache w =
     (case cache_file (det w) of
        None \<Rightarrow> w
      | Some path \<Rightarrow>
          if dirty (det w) \<and> truthy path
          then w\<lparr>files := (files w)(path \<mapsto> JsonDict (cache (det w))),
                 det := (det w)\<lparr>dirty := False\<rparr>,
                 trace := trace w @ [Write path (cache (det w))]\<rparr>
          else w)"

section \<open>Annotating a frame\<close>

text \<open>The name \<open>f"{col}_lang"\<close> of the label column.\<close>

definition lang_col :: "pystr \<Rightarrow> pystr" where
  "lang_col col = col @ lit ''_lang''"

text \<open>
  One pass of the inner loop \<open>for val in uniques\<close>, without the store into
  \<open>lang_map\<close>: it classifies the value and, with \<open>auto_cache\<close>, inserts it into the
  cache when the score reaches the threshold. The threshold and the score are compared
  as exact numbers.
\<close>

definition classify_value :: "bool \<Rightarrow> rat \<Rightarrow> pystr \<Rightarrow> 'o world \<Rightarrow> pystr \<times> 'o world" where
  "classify_value auto_cache min_cache_score val w =
     (case detect (det w) (Some val) of
        (lang, score) \<Rightarrow>
          (let w1 = w\<lparr>trace := trace w @ [Detect val]\<rparr>
           in (lang, if auto_cache \<and> score \<ge> min_cache_score
                     then add_to_cache val lang w1 else w1)))"

text \<open>The inner loop, which fills \<open>lang_map\<close>.\<close>

fun detect_uniques ::
  "bool \<Rightarrow> rat \<Rightarrow> pystr list \<Rightarrow> (pystr \<rightharpoonup> pystr) \<Rightarrow> 'o world \<Rightarrow> (pystr \<rightharpoonup> pystr) \<times> 'o world" where
  "detect_uniques auto_cache min_cache_score [] lang_map w = (lang_map, w)"
| "detect_uniques auto_cache min_cache_score (val # vals) lang_map w =
     (case classify_value auto_cache min_cache_score val w of
        (lang, w') \<Rightarrow>
          detect_uniques auto_cache min_cache_score vals (lang_map(val \<mapsto> lang)) w')"

text \<open>\<open>ser.map(lang_map)\<close>: a value that is no key of the dict becomes \<open>NaN\<close>.\<close>

definition series_map :: "(pystr \<rightharpoonup> pystr) \<Rightarrow> pystr list \<Rightarrow> 'o cell list" where
  "series_map lang_map ser =
     map (\<lambda>v. case lang_map v of Some lang \<Rightarrow> Str lang | None \<Rightarrow> NaN) ser"

text \<open>
  One pass of the loop \<open>for col in columns\<close> on the frame at the reference \<open>df\<close>:
  \<open>df[col]\<close> raises \<open>KeyError\<close> for a missing column; the assignment replaces the column
  \<open>col_lang\<close> where it stands or appends it.
\<close>

definition annotate_column ::
  "('o \<Rightarrow> pystr) \<Rightarrow> nat \<Rightarrow> bool \<Rightarrow> rat \<Rightarrow> pystr \<Rightarrow> 'o world \<Rightarrow> (error + unit) \<times> 'o world" where
  "annotate_column str_of df auto_cache min_cache_score col w =
     (case map_of (frames w df) col of
        None \<Rightarrow> (Inl (KeyError col), w)
      | Some cells \<Rightarrow>
          (let ser = map (astype_str str_of) cells;
               uniques = unique ser
           in case detect_uniques auto_cache min_cache_score uniques Map.empty w of
                (lang_map, w') \<Rightarrow>
                  (Inr (),
                   w'\<lparr>frames := (frames w')
                         (df := AList.update (lang_col col) (series_map lang_map ser)
                                  (frames w' df)),
                      trace := trace w' @ [SetColumn (lang_col col)]\<rparr>)))"

fun annotate_columns ::
  "('o \<Rightarrow> pystr) \<Rightarrow> nat \<Rightarrow> bool \<Rightarrow> rat \<Rightarrow> pystr list \<Rightarrow> 'o world \<Rightarrow> (error + unit) \<times> 'o world" where
  "annotate_columns str_of df auto_cache min_cache_score [] w = (Inr (), w)"
| "annotate_columns str_of df auto_cache min_cache_score (col # cols) w =
     (case annotate_column str_of df auto_cache min_cache_score col w of
        (Inl e, w') \<Rightarrow> (Inl e, w')
      | (Inr u, w') \<Rightarrow> annotate_columns str_of df auto_cache min_cache_score cols w')"

text \<open>\<open>annotate_frame\<close>: it returns the reference it was given.\<close>

definition annotate_frame ::
  "('o \<Rightarrow> pystr) \<Rightarrow> nat \<Rightarrow> pystr list \<Rightarrow> bool \<Rightarrow> rat \<Rightarrow> 'o world \<Rightarrow> (error + nat) \<times> 'o world" where
  "annotate_frame str_of df columns auto_cache min_cache_score w =
     (if \<not> pandas w then (Inl ImportError, w)
      else (case annotate_columns str_of df auto_cache min_cache_score columns w of
              (Inl e, w') \<Rightarrow> (Inl e, w')
            | (Inr u, w') \<Rightarrow> (Inr df, if auto_cache then flush_cache w' else w')))"

section \<open>Notions used to state the properties of the cache and of the frames\<close>

text \<open>The parts of a log: the classified values, the snapshot writes, the columns set.\<close>

fun detects :: "event list \<Rightarrow> pystr list" where
  "detects [] = []"
| "detects (Detect v # es) = v # detects es"
| "detects (e # es) = detects es"

fun writes :: "event list \<Rightarrow> (pystr \<times> (pystr \<rightharpoonup> pystr)) list" where
  "writes [] = []"
| "writes (Write p m # es) = (p, m) # writes es"
| "writes (e # es) = writes es"

fun columns_set :: "event list \<Rightarrow> pystr list" where
  "columns_set [] = []"
| "columns_set (SetColumn c # es) = c # columns_set es"
| "columns_set (e # es) = columns_set es"

fun is_Insert :: "event \<Rightarrow> bool" where
  "is_Insert (Insert p l) = True"
| "is_Insert e = False"

fun is_Write :: "event \<Rightarrow> bool" where
  "is_Write (Write p m) = True"
| "is_Write e = False"

text \<open>
  An insert occurred since the last write of the snapshot (since the start of the log
  when nothing was written): among the events after the last \<open>Write\<close> there is an
  \<open>Insert\<close>.
\<close>

definition insert_pending :: "event list \<Rightarrow> bool" where
  "insert_pending tr = list_ex is_Insert (takeWhile (\<lambda>e. \<not> is_Write e) (rev tr))"

text \<open>A persistence target is configured: \<open>cache_file\<close> is a non-empty string.\<close>

definition has_target :: "detector \<Rightarrow> bool" where
  "has_target self = (case cache_file self of None \<Rightarrow> False | Some path \<Rightarrow> truthy path)"

text \<open>A sequence of cache operations, applied in order.\<close>

datatype cache_op = Add pystr pystr | Flush

fun apply_op :: "cache_op \<Rightarrow> 'o world \<Rightarrow> 'o world" where
  "apply_op (Add phrase lang) w = add_to_cache phrase lang w"
| "apply_op Flush w = flush_cache w"

definition run_ops :: "cache_op list \<Rightarrow> 'o world \<Rightarrow> 'o world" where
  "run_ops ops w = fold apply_op ops w"

text \<open>
  A small frame and a state to try the methods on: a column of names, one of them
  twice, and a column without strings, in the frame every reference points to; pandas
  is there, the cache is empty and has a file to go to, nothing has happened yet.
\<close>

definition example_frame :: "unit frame" where
  "example_frame =
     [(lit ''Name'', [Str (lit ''Ram''), Str [0x0930, 0x093E, 0x092E], Str (lit ''Ram'')]),
      (lit ''Age'', [Obj (), NaN, Obj ()])]"

definition example_world :: "unit world" where
  "example_world =
     \<lparr>det = new_detector 6 (lit ''en'') (Some (lit ''c.json'')), files = Map.empty,
      frames = (\<lambda>r. example_frame), pandas = True, trace = []\<rparr>"

text \<open>The language code \<open>detect\<close> gives to a value.\<close>

definition label :: "detector \<Rightarrow> pystr \<Rightarrow> pystr" where
  "label self v = fst (detect self (Some v))"

text \<open>The strings \<open>df[col].astype(str)\<close> of a column of a frame (none for a missing column).\<close>

definition ser_of :: "('o \<Rightarrow> pystr) \<Rightarrow> 'o frame \<Rightarrow> pystr \<Rightarrow> pystr list" where
  "ser_of str_of fr col =
     (case map_of fr col of None \<Rightarrow> [] | Some cells \<Rightarrow> map (astype_str str_of) cells)"

section \<open>The block table and the character classifier\<close>

lemma ASCII_iff: "cp \<in> ASCII \<longleftrightarrow> (9 \<le> cp \<and> cp \<le> 13) \<or> (32 \<le> cp \<and> cp \<le> 126)"
  unfolding ASCII_def printable_ords_def
  apply (simp only: set_append set_upt Un_iff atLeastLessThan_iff list.set insert_iff empty_iff)
  apply arith
  done

lemma lit_simps: "lit [] = []" "lit (c # cs) = of_char c # lit cs"
  by (simp_all add: lit_def)

lemma in_lang_table: "in_lang L cp \<Longrightarrow> table_lang UNICODE_RANGES cp = Some L"
  unfolding in_lang_def UNICODE_RANGES_def
  by (simp split: if_splits)

text \<open>The ranges of the table are disjoint and the printable ASCII set lies in those of \<open>en\<close>.\<close>

lemma in_lang_char_lang: "in_lang L cp \<Longrightarrow> char_lang cp = Some L"
proof -
  assume a: "in_lang L cp"
  show ?thesis
  proof (cases "cp \<in> ASCII")
    case True
    then have "cp < 0x80" by (auto simp: ASCII_iff)
    with a have "L = lit ''en''"
      unfolding in_lang_def UNICODE_RANGES_def by (simp split: if_splits)
    with True show ?thesis by (simp add: char_lang_def)
  next
    case False
    with in_lang_table[OF a] show ?thesis by (simp add: char_lang_def)
  qed
qed

lemma table_keys_truthy: "table_lang UNICODE_RANGES cp = Some l \<Longrightarrow> truthy l"
  unfolding truthy_def UNICODE_RANGES_def by (auto simp: lit_simps split: if_splits)

lemma char_lang_truthy: "char_lang cp = Some l \<Longrightarrow> truthy l"
  unfolding char_lang_def using table_keys_truthy by (auto simp: truthy_def lit_simps split: if_splits)

section \<open>The bounded scan\<close>

lemma scan_take:
  "scan n xs c t =
     (fold (\<lambda>cp c. count_char c cp) (take (max 1 (nat (n - int t))) xs) c,
      t + length (take (max 1 (nat (n - int t))) xs))"
proof (induction xs arbitrary: c t)
  case Nil
  then show ?case by simp
next
  case (Cons cp cps)
  show ?case
  proof (cases "n \<le> int (t + 1)")
    case True
    then have "max 1 (nat (n - int t)) = 1" by simp
    with True show ?thesis by (simp add: Let_def)
  next
    case False
    then have m: "max 1 (nat (n - int t)) = Suc (max 1 (nat (n - int (t + 1))))" by simp
    from False show ?thesis
      by (simp only: scan.simps Let_def if_False Cons.IH m take_Suc_Cons fold_Cons o_apply list.size) simp
  qed
qed

lemma fold_count_char:
  "fold (\<lambda>cp c. count_char c cp) cps c = fold (\<lambda>l c. bump c l) (resolved cps) c"
proof (induction cps arbitrary: c)
  case Nil
  then show ?case by (simp add: resolved_def map_filter_simps)
next
  case (Cons cp cps)
  show ?case
  proof (cases "char_lang cp")
    case None
    then show ?thesis using Cons.IH by (simp add: resolved_def map_filter_simps count_char_def)
  next
    case (Some l)
    then have "truthy l" by (rule char_lang_truthy)
    with Some show ?thesis using Cons.IH by (simp add: resolved_def map_filter_simps count_char_def)
  qed
qed

lemma scan_counts:
  "scan (sample_chars self) (iter_significant t) [] 0 =
     (fold (\<lambda>l c. bump c l) (resolved (scanned self t)) [], length (scanned self t))"
  by (simp add: scan_take fold_count_char scanned_def)

section \<open>The counters and the choice of the winner\<close>

lemma counts_get_Nil: "counts_get [] k = 0"
  by (simp add: counts_get_def)

lemma counts_get_bump: "counts_get (bump c l) k = (if k = l then counts_get c l + 1 else counts_get c k)"
  by (simp add: bump_def counts_get_def update_conv')

lemma counts_get_fold_bump:
  "counts_get (fold (\<lambda>l c. bump c l) ls c) k = counts_get c k + count_list ls k"
  by (induction ls arbitrary: c) (simp_all add: counts_get_bump)

lemma keys_update:
  "map fst (AList.update k v al) = (if k \<in> set (map fst al) then map fst al else map fst al @ [k])"
  by (induction al) auto

lemma keys_bump:
  "map fst (bump c l) = (if l \<in> set (map fst c) then map fst c else map fst c @ [l])"
  by (simp only: bump_def keys_update)

lemma unique_from_cong: "set s1 = set s2 \<Longrightarrow> unique_from s1 xs = unique_from s2 xs"
proof (induction xs arbitrary: s1 s2)
  case Nil
  then show ?case by simp
next
  case (Cons x xs)
  have "unique_from (x # s1) xs = unique_from (x # s2) xs"
    by (rule Cons.IH) (simp add: Cons.prems)
  moreover have "unique_from s1 xs = unique_from s2 xs"
    by (rule Cons.IH) (rule Cons.prems)
  ultimately show ?case using Cons.prems by simp
qed

lemma keys_fold_bump:
  "map fst (fold (\<lambda>l c. bump c l) ls c) = map fst c @ unique_from (map fst c) ls"
proof (induction ls arbitrary: c)
  case Nil
  then show ?case by simp
next
  case (Cons l ls)
  show ?case
  proof (cases "l \<in> set (map fst c)")
    case True
    then show ?thesis using Cons.IH[of "bump c l"] by (simp add: keys_bump)
  next
    case False
    have "unique_from (map fst c @ [l]) ls = unique_from (l # map fst c) ls"
      by (rule unique_from_cong) auto
    with False show ?thesis using Cons.IH[of "bump c l"] by (simp add: keys_bump)
  qed
qed

lemma set_unique_from: "set (unique_from seen xs) = set xs - set seen"
  by (induction xs arbitrary: seen) auto

lemma distinct_unique_from: "distinct (unique_from seen xs)"
  by (induction xs arbitrary: seen) (auto simp: set_unique_from)

lemma set_unique: "set (unique xs) = set xs"
  by (simp add: unique_def set_unique_from)

lemma distinct_unique: "distinct (unique xs)"
  by (simp add: unique_def distinct_unique_from)

lemma find_unique_from:
  "find P (unique_from seen xs) = find (\<lambda>x. P x \<and> x \<notin> set seen) xs"
proof (induction xs arbitrary: seen)
  case Nil
  then show ?case by simp
next
  case (Cons x xs)
  show ?case
  proof (cases "x \<in> set seen")
    case True
    then show ?thesis using Cons.IH by simp
  next
    case False
    have "\<not> P x \<Longrightarrow> find (\<lambda>y. P y \<and> y \<notin> set (x # seen)) xs = find (\<lambda>y. P y \<and> y \<notin> set seen) xs"
      by (rule find_cong) auto
    with False show ?thesis using Cons.IH[of "x # seen"] by simp
  qed
qed

lemma find_unique: "find P (unique xs) = find P xs"
  by (simp add: unique_def find_unique_from)

lemma alist_by_keys:
  "distinct (map fst al) \<Longrightarrow> al = map (\<lambda>k. (k, counts_get al k)) (map fst al)"
proof (induction al)
  case Nil
  then show ?case by simp
next
  case (Cons p al)
  obtain k v where p: "p = (k, v)" by (cases p)
  from Cons.prems p have nk: "k \<notin> fst ` set al" and d: "distinct (map fst al)" by auto
  have "map (\<lambda>k'. (k', counts_get (p # al) k')) (map fst al) = map (\<lambda>k'. (k', counts_get al k')) (map fst al)"
    using nk p by (intro map_cong) (auto simp: counts_get_def)
  with Cons.IH[OF d] p show ?case by (simp add: counts_get_def)
qed

lemma tally_eq:
  "fold (\<lambda>l c. bump c l) ls [] = map (\<lambda>l. (l, count_list ls l)) (unique ls)"
proof -
  let ?c = "fold (\<lambda>l c. bump c l) ls []"
  have k: "map fst ?c = unique ls" by (simp add: keys_fold_bump unique_def)
  then have "distinct (map fst ?c)" by (simp add: distinct_unique)
  from alist_by_keys[OF this] have "?c = map (\<lambda>l. (l, counts_get ?c l)) (unique ls)"
    by (simp only: k)
  then show ?thesis by (simp only: counts_get_fold_bump counts_get_Nil add_0)
qed

lemma Max_drop_small:
  fixes a b :: nat
  assumes "finite S" "a \<le> b"
  shows "Max (insert a (insert b S)) = Max (insert b S)"
proof -
  have "b \<le> Max (insert b S)" using assms(1) by simp
  with assms(2) have "a \<le> Max (insert b S)" by simp
  moreover have "Max (insert a (insert b S)) = max a (Max (insert b S))"
    using assms(1) by simp
  ultimately show ?thesis by simp
qed

lemma max_from_find:
  "max_from b bv rest =
     fst (the (find (\<lambda>p. snd p = Max (set (bv # map snd rest))) ((b, bv) # rest)))"
proof (induction rest arbitrary: b bv)
  case Nil
  then show ?case by simp
next
  case (Cons p rest)
  obtain k v where p: "p = (k, v)" by (cases p)
  let ?S = "snd ` set rest"
  let ?M = "Max (insert bv (insert v ?S))"
  have fin: "finite ?S" by simp
  have goal_eq: "Max (set (bv # map snd (p # rest))) = ?M" using p by simp
  show ?case
  proof (cases "v > bv")
    case True
    then have M: "?M = Max (insert v ?S)" using Max_drop_small[OF fin, of bv v] by simp
    have "v \<le> Max (insert v ?S)" using fin by simp
    with True M have ne: "bv \<noteq> ?M" by linarith
    have "max_from b bv (p # rest) = max_from k v rest" using True p by simp
    also have "\<dots> = fst (the (find (\<lambda>q. snd q = Max (insert v ?S)) ((k, v) # rest)))"
      using Cons.IH[of k v] by simp
    also have "\<dots> = fst (the (find (\<lambda>q. snd q = ?M) ((b, bv) # p # rest)))"
      using ne M p by simp
    finally show ?thesis by (simp only: goal_eq)
  next
    case False
    then have le: "v \<le> bv" by simp
    have "insert bv (insert v ?S) = insert v (insert bv ?S)" by auto
    then have M: "?M = Max (insert bv ?S)" using Max_drop_small[OF fin le] by simp
    have "max_from b bv (p # rest) = max_from b bv rest" using False p by simp
    also have "\<dots> = fst (the (find (\<lambda>q. snd q = Max (insert bv ?S)) ((b, bv) # rest)))"
      using Cons.IH[of b bv] by simp
    also have "\<dots> = fst (the (find (\<lambda>q. snd q = ?M) ((b, bv) # p # rest)))"
    proof (cases "bv = ?M")
      case True
      then show ?thesis using M by simp
    next
      case ne: False
      have "bv \<le> ?M" using fin by simp
      with ne le have "v \<noteq> ?M" by linarith
      then show ?thesis using M p by simp
    qed
    finally show ?thesis by (simp only: goal_eq)
  qed
qed

lemma find_map_pair:
  "find (\<lambda>p. snd p = M) (map (\<lambda>l. (l, f l)) us) = map_option (\<lambda>l. (l, f l)) (find (\<lambda>l. f l = M) us)"
  by (induction us) auto

lemma max_count_attained:
  assumes "ls \<noteq> []"
  shows "\<exists>w. find (\<lambda>l. count_list ls l = max_count ls) ls = Some w \<and> count_list ls w = max_count ls"
proof -
  have "max_count ls \<in> count_list ls ` set ls"
    unfolding max_count_def using assms Max_in[of "count_list ls ` set ls"] by simp
  then obtain l where "l \<in> set ls" "count_list ls l = max_count ls" by auto
  then have "find (\<lambda>l. count_list ls l = max_count ls) ls \<noteq> None"
    by (auto simp: find_None_iff)
  then obtain w where w: "find (\<lambda>l. count_list ls l = max_count ls) ls = Some w" by auto
  then have "count_list ls w = max_count ls" by (auto simp: find_Some_iff)
  with w show ?thesis by blast
qed

lemma detect_scan_winner:
  assumes ls: "ls = resolved (scanned self t)" and ne: "ls \<noteq> []"
  shows "\<exists>w. find (\<lambda>l. count_list ls l = max_count ls) ls = Some w \<and>
             detect_scan self t = (w, of_nat (max_count ls) / of_nat (length (scanned self t)))"
proof -
  let ?cnt = "count_list ls"
  let ?counts = "map (\<lambda>l. (l, ?cnt l)) (unique ls)"
  have sc: "scan (sample_chars self) (iter_significant t) [] 0 = (?counts, length (scanned self t))"
    by (simp add: scan_counts tally_eq ls)
  from ne have "unique ls \<noteq> []" using set_unique[of ls] by (metis set_empty)
  then obtain k v rest where kv: "?counts = (k, v) # rest" by (cases "unique ls") auto
  have Mx: "Max (set (v # map snd rest)) = max_count ls"
  proof -
    have "set (v # map snd rest) = set (map snd ?counts)" by (simp only: kv) simp
    also have "\<dots> = ?cnt ` set ls" by (simp add: set_unique image_image)
    finally show ?thesis by (simp add: max_count_def)
  qed
  from max_count_attained[OF ne] obtain w
    where w: "find (\<lambda>l. ?cnt l = max_count ls) ls = Some w" and cw: "?cnt w = max_count ls"
    by blast
  have "find (\<lambda>p. snd p = max_count ls) ?counts = Some (w, ?cnt w)"
    by (simp add: find_map_pair find_unique w)
  then have win: "max_from k v rest = w"
    by (simp only: max_from_find Mx kv[symmetric]) simp
  have "counts_get ?counts w = ?cnt w"
    using counts_get_fold_bump[of ls "[]" w] by (simp add: tally_eq counts_get_Nil)
  then have cg: "counts_get ((k, v) # rest) w = max_count ls" by (simp only: kv[symmetric] cw)
  have "detect_scan self t = (w, of_nat (max_count ls) / of_nat (length (scanned self t)))"
    unfolding detect_scan_def by (simp only: sc kv) (simp add: win cg)
  with w show ?thesis by blast
qed

lemma detect_scan_none:
  assumes "resolved (scanned self t) = []"
  shows "detect_scan self t = (default_code self, 0)"
  unfolding detect_scan_def by (simp add: scan_counts assms)

lemma detect_miss:
  "t \<noteq> [] \<Longrightarrow> cache self t = None \<Longrightarrow> detect self (Some t) = detect_scan self t"
  by (simp add: detect_def truthy_def)

section \<open>Evaluating the classifier on concrete tokens\<close>

lemma table_lang_code:
  "table_lang UNICODE_RANGES cp =
    (if 0x900 \<le> cp \<and> cp < 0x980 then Some (lit ''hi'')
     else if 0xA80 \<le> cp \<and> cp < 0xB00 then Some (lit ''gu'')
     else if 0xA00 \<le> cp \<and> cp < 0xA80 then Some (lit ''pa'')
     else if 0x980 \<le> cp \<and> cp < 0xA00 then Some (lit ''bn'')
     else if 0xB00 \<le> cp \<and> cp < 0xB80 then Some (lit ''or'')
     else if 0xB80 \<le> cp \<and> cp < 0xC00 then Some (lit ''tam'')
     else if 0xC00 \<le> cp \<and> cp < 0xC80 then Some (lit ''te'')
     else if 0xC80 \<le> cp \<and> cp < 0xD00 then Some (lit ''kn'')
     else if 0xD00 \<le> cp \<and> cp < 0xD80 then Some (lit ''ml'')
     else if (0x600 \<le> cp \<and> cp < 0x700) \<or> (0x750 \<le> cp \<and> cp < 0x780) then Some (lit ''ur'')
     else if cp < 0x100 then Some (lit ''en'')
     else None)"
  unfolding UNICODE_RANGES_def by simp

lemma char_lang_code:
  "char_lang cp =
     (if (9 \<le> cp \<and> cp \<le> 13) \<or> (32 \<le> cp \<and> cp \<le> 126) then Some (lit ''en'')
      else table_lang UNICODE_RANGES cp)"
  by (simp add: char_lang_def ASCII_iff)

lemmas eval_simps =
  new_detector_def detect_def detect_scan_def truthy_def scanned_def iter_significant_def
  skipped_def resolved_def map_filter_simps char_lang_code table_lang_code count_char_def
  bump_def counts_get_def lit_simps first_seen_winner_def table_order_winner_def max_count_def
  in_lang_def

section \<open>Tokens of a single script\<close>

lemma unique_from_seen: "set xs \<subseteq> set seen \<Longrightarrow> unique_from seen xs = []"
  by (induction xs) auto

lemma resolved_all:
  "\<forall>cp \<in> set cps. char_lang cp = Some A \<Longrightarrow> resolved cps = replicate (length cps) A"
  unfolding resolved_def by (induction cps) (auto simp: map_filter_simps)

lemma resolved_none:
  "\<forall>cp \<in> set cps. char_lang cp = None \<Longrightarrow> resolved cps = []"
  unfolding resolved_def by (induction cps) (auto simp: map_filter_simps)

lemma count_list_replicate_same: "count_list (replicate n A) A = n"
  by (induction n) auto

lemma tally_replicate:
  "fold (\<lambda>l c. bump c l) (replicate (Suc m) A) [] = [(A, Suc m)]"
proof -
  have "unique_from [A] (replicate m A) = []"
    by (rule unique_from_seen) auto
  then have "unique (replicate (Suc m) A) = [A]"
    by (simp add: unique_def)
  then have "fold (\<lambda>l c. bump c l) (replicate (Suc m) A) [] =
      [(A, count_list (replicate (Suc m) A) A)]"
    by (simp only: tally_eq list.map)
  then show ?thesis by (simp only: count_list_replicate_same)
qed

lemma one_lang_scan:
  assumes ne: "scanned self t \<noteq> []"
    and all: "\<forall>cp \<in> set (scanned self t). char_lang cp = Some A"
  shows "scan (sample_chars self) (iter_significant t) [] 0 =
           ([(A, length (scanned self t))], length (scanned self t))"
proof -
  from ne obtain m where m: "length (scanned self t) = Suc m"
    by (cases "scanned self t") auto
  show ?thesis
    by (simp only: scan_counts resolved_all[OF all] m tally_replicate)
qed

lemma one_lang_detect_scan:
  assumes ne: "scanned self t \<noteq> []"
    and all: "\<forall>cp \<in> set (scanned self t). char_lang cp = Some A"
  shows "detect_scan self t = (A, 1)"
  unfolding detect_scan_def using ne by (simp add: one_lang_scan[OF ne all] counts_get_def)

lemma set_scanned: "set (scanned self t) \<subseteq> set (iter_significant t)"
  unfolding scanned_def by (rule set_take_subset)

lemma scanned_nonempty: "iter_significant t \<noteq> [] \<Longrightarrow> scanned self t \<noteq> []"
  unfolding scanned_def by (cases "iter_significant t") (auto simp: max_def)

lemma significant_nonempty: "iter_significant t \<noteq> [] \<Longrightarrow> t \<noteq> []"
  by (auto simp: iter_significant_def)

lemma scanned_bound:
  assumes "1 \<le> sample_chars self"
  shows "scanned self t = take (nat (sample_chars self)) (iter_significant t)"
proof -
  have "max 1 (nat (sample_chars self)) = nat (sample_chars self)"
    using assms by arith
  then show ?thesis by (simp only: scanned_def)
qed

section \<open>Ties between two scripts\<close>

lemma in_lang_unique: "in_lang A cp \<Longrightarrow> in_lang B cp \<Longrightarrow> A = B"
  using in_lang_char_lang[of A cp] in_lang_char_lang[of B cp] by simp

lemma length_filter_disj:
  "\<forall>x \<in> set xs. \<not> (P x \<and> Q x) \<Longrightarrow>
     length (filter (\<lambda>x. P x \<or> Q x) xs) = length (filter P xs) + length (filter Q xs)"
  by (induction xs) auto

lemma filter_full: "length (filter P xs) = length xs \<Longrightarrow> \<forall>x \<in> set xs. P x"
  using length_filter_less[of _ xs P] by (metis nat_neq_iff)

lemma resolved_map:
  "\<forall>cp \<in> set cps. char_lang cp = Some (f cp) \<Longrightarrow> resolved cps = map f cps"
  unfolding resolved_def by (induction cps) (auto simp: map_filter_simps)

lemma count_list_map: "count_list (map f xs) y = length (filter (\<lambda>x. f x = y) xs)"
  by (induction xs) auto

lemma all_tied_first:
  assumes ne: "ls \<noteq> []" and tied: "\<forall>l \<in> set ls. count_list ls l = M"
  shows "max_count ls = M" and "first_seen_winner ls = Some (hd ls)"
proof -
  have "count_list ls ` set ls = {M}" using ne tied by (cases ls) auto
  then show m: "max_count ls = M" by (simp add: max_count_def)
  from ne tied show "first_seen_winner ls = Some (hd ls)"
    unfolding first_seen_winner_def m by (cases ls) auto
qed

lemma two_scripts_tied:
  assumes six: "length sc = 6"
    and e: "length (filter (in_lang E) sc) = 3"
    and h: "length (filter (in_lang H) sc) = 3"
    and EH: "E \<noteq> H"
    and ls: "ls = resolved sc"
  shows "max_count ls = 3 \<and> (\<exists>w. first_seen_winner ls = Some w \<and> char_lang (hd sc) = Some w)"
proof -
  let ?f = "\<lambda>cp. if in_lang E cp then E else H"
  have disj: "\<forall>cp \<in> set sc. \<not> (in_lang E cp \<and> in_lang H cp)"
    using EH in_lang_unique by blast
  have "length (filter (\<lambda>cp. in_lang E cp \<or> in_lang H cp) sc) = length sc"
    by (simp only: length_filter_disj[OF disj] e h six)
  then have cover: "\<forall>cp \<in> set sc. in_lang E cp \<or> in_lang H cp"
    by (rule filter_full)
  have cl: "\<forall>cp \<in> set sc. char_lang cp = Some (?f cp)"
    using cover in_lang_char_lang by auto
  have r: "ls = map ?f sc" unfolding ls by (rule resolved_map[OF cl])
  from six have ne: "sc \<noteq> []" by auto
  have cE: "count_list ls E = 3"
  proof -
    have "filter (\<lambda>cp. ?f cp = E) sc = filter (in_lang E) sc"
      using EH by (intro filter_cong) auto
    then show ?thesis by (simp only: r count_list_map e)
  qed
  have cH: "count_list ls H = 3"
  proof -
    have "filter (\<lambda>cp. ?f cp = H) sc = filter (in_lang H) sc"
      using EH cover disj by (intro filter_cong) auto
    then show ?thesis by (simp only: r count_list_map h)
  qed
  have tied: "\<forall>l \<in> set ls. count_list ls l = 3"
    using cE cH unfolding r by auto
  have lne: "ls \<noteq> []" using ne r by simp
  have "hd ls = ?f (hd sc)" using ne r by (simp add: hd_map)
  moreover have "char_lang (hd sc) = Some (?f (hd sc))" using cl ne by simp
  ultimately show ?thesis
    using all_tied_first[OF lne tied] by simp
qed

section \<open>The claims about the classifier\<close>

text \<open>
  C5. A non-empty token that the cache holds with a language code \<open>L\<close> (a non-empty
  string, as every language code is) is answered from the cache: \<open>detect\<close> returns
  \<open>(L, 1.0)\<close> whatever characters the token is made of; the scan has no part in the
  result.
\<close>

theorem detect_cache_hit:
  assumes "t \<noteq> []" and "cache self t = Some L" and "truthy L"
  shows "detect self (Some t) = (L, 1)"
  using assms by (simp add: detect_def truthy_def)

theorem detect_cache_hit_witness:
  "detect ((new_detector 6 (lit ''en'') None)\<lparr>cache := [lit ''Ramesh'' \<mapsto> lit ''hi'']\<rparr>)
     (Some (lit ''Ramesh'')) = (lit ''hi'', 1)
   \<and> detect_scan ((new_detector 6 (lit ''en'') None)\<lparr>cache := [lit ''Ramesh'' \<mapsto> lit ''hi'']\<rparr>)
     (lit ''Ramesh'') = (lit ''en'', 1)"
  using detect_cache_hit [of "lit ''Ramesh''"
      "(new_detector 6 (lit ''en'') None)\<lparr>cache := [lit ''Ramesh'' \<mapsto> lit ''hi'']\<rparr>" "lit ''hi''"]
  by (simp add: eval_simps)

text \<open>
  C6, as amended. A token that is not in the cache, has at least one significant
  character and consists only of characters in the ranges the table declares for \<open>L\<close>
  is classified \<open>(L, 1.0)\<close>. This holds for a token of any length, so for one of length
  at most \<open>sample_chars\<close>.
\<close>

theorem detect_single_script:
  assumes "cache self t = None" and "iter_significant t \<noteq> []"
    and "\<forall>cp \<in> set t. in_lang L cp"
  shows "detect self (Some t) = (L, 1)"
proof -
  have ne: "scanned self t \<noteq> []" using assms(2) by (rule scanned_nonempty)
  have "set (scanned self t) \<subseteq> set t"
    using set_scanned[of self t] by (auto simp: iter_significant_def)
  with assms(3) have "\<forall>cp \<in> set (scanned self t). char_lang cp = Some L"
    using in_lang_char_lang by blast
  from one_lang_detect_scan[OF ne this] show ?thesis
    using detect_miss[OF significant_nonempty[OF assms(2)] assms(1)] by simp
qed

theorem detect_single_script_witness:
  "detect (new_detector 6 (lit ''en'') None) (Some [0x0930, 0x093E, 0x092E]) = (lit ''hi'', 1)"
  using detect_single_script [of "new_detector 6 (lit ''en'') None" "[0x0930, 0x093E, 0x092E]" "lit ''hi''"]
  by (simp add: eval_simps UNICODE_RANGES_def)

text \<open>
  The claim C6 as it is written fails on a token made of a single space: U+0020 lies in
  the first range of \<open>en\<close>, the token is not cached and is no longer than
  \<open>sample_chars\<close>, but a space is not a significant character, nothing is counted and
  the score is 0.
\<close>

theorem detect_single_script_counterexample:
  "in_lang (lit ''en'') 0x20
   \<and> cache (new_detector 6 (lit ''en'') None) [0x20] = None
   \<and> int (length [0x20::nat]) \<le> sample_chars (new_detector 6 (lit ''en'') None)
   \<and> detect (new_detector 6 (lit ''en'') None) (Some [0x20]) = (lit ''en'', 0)
   \<and> detect (new_detector 6 (lit ''en'') None) (Some [0x20]) \<noteq> (lit ''en'', 1)"
  by (simp add: eval_simps UNICODE_RANGES_def)

text \<open>
  C2, as amended. A non-empty token that is not in the cache and none of whose
  significant characters is resolved by \<open>_char_lang\<close> is classified
  \<open>(default_code, 0.0)\<close>.
\<close>

theorem detect_unresolvable:
  assumes "t \<noteq> []" and "cache self t = None"
    and "\<forall>cp \<in> set (iter_significant t). char_lang cp = None"
  shows "detect self (Some t) = (default_code self, 0)"
proof -
  from assms(3) have "\<forall>cp \<in> set (scanned self t). char_lang cp = None"
    using set_scanned[of self t] by blast
  then have "resolved (scanned self t) = []" by (rule resolved_none)
  then show ?thesis using detect_miss[OF assms(1,2)] by (simp add: detect_scan_none)
qed

theorem detect_unresolvable_witness:
  "detect (new_detector 6 (lit ''xx'') None) (Some [0x4E2D, 0x6587]) = (lit ''xx'', 0)"
  using detect_unresolvable [of "[0x4E2D, 0x6587]" "new_detector 6 (lit ''xx'') None"]
  by (simp add: eval_simps)

text \<open>
  The claim C2 as it is written names tokens of ASCII digits or punctuation as examples
  of tokens without resolvable characters. Digits and punctuation belong to
  \<open>string.printable\<close>, so \<open>_char_lang\<close> resolves each of them to \<open>en\<close>: such a token is
  classified \<open>(en, 1.0)\<close>, whatever the default code is.
\<close>

theorem detect_unresolvable_counterexample:
  "detect (new_detector 6 (lit ''xx'') None) (Some (lit ''123'')) = (lit ''en'', 1)
   \<and> detect (new_detector 6 (lit ''xx'') None) (Some (lit ''123''))
       \<noteq> (default_code (new_detector 6 (lit ''xx'') None), 0)
   \<and> detect (new_detector 6 (lit ''xx'') None) (Some (lit ''?!'')) = (lit ''en'', 1)"
  by (simp add: eval_simps)

lemma one_lang_prefix:
  assumes "1 \<le> sample_chars self"
    and "nat (sample_chars self) \<le> length (iter_significant t)"
    and "\<forall>cp \<in> set (take (nat (sample_chars self)) (iter_significant t)). in_lang A cp"
  shows "scan (sample_chars self) (iter_significant t) [] 0
           = ([(A, nat (sample_chars self))], nat (sample_chars self))"
    and "cache self t = None \<Longrightarrow> detect self (Some t) = (A, 1)"
proof -
  let ?n = "nat (sample_chars self)"
  have sc: "scanned self t = take ?n (iter_significant t)"
    using assms(1) by (rule scanned_bound)
  have len: "length (scanned self t) = ?n" using assms(2) by (simp add: sc)
  have pos: "0 < ?n" using assms(1) by simp
  with len have ne: "scanned self t \<noteq> []" by auto
  then have sig: "iter_significant t \<noteq> []" by (auto simp: sc)
  have all: "\<forall>cp \<in> set (scanned self t). char_lang cp = Some A"
    using assms(3) in_lang_char_lang by (simp add: sc)
  show "scan (sample_chars self) (iter_significant t) [] 0 = ([(A, ?n)], ?n)"
    using one_lang_scan[OF ne all] by (simp only: len)
  show "detect self (Some t) = (A, 1)" if "cache self t = None"
    using one_lang_detect_scan[OF ne all]
      detect_miss[OF significant_nonempty[OF sig] that] by simp
qed

text \<open>
  C4. With a bound \<open>N = sample_chars\<close> of at least 1: when the token has at least \<open>N\<close>
  significant characters and the first \<open>N\<close> of them lie in the ranges of a language
  \<open>A\<close>, the loop counts exactly these \<open>N\<close> characters, all for \<open>A\<close>, no other language
  \<open>B\<close> gets a count, and \<open>detect\<close>, when the token is not in the cache, returns
  \<open>(A, 1.0)\<close>. Nothing is assumed about the characters after the first \<open>N\<close> significant
  ones, and the same holds for the token with any further characters appended: the
  length of the token plays no part.
\<close>

theorem detect_bounded_scan:
  assumes "1 \<le> sample_chars self" and "cache self t = None"
    and "nat (sample_chars self) \<le> length (iter_significant t)"
    and "\<forall>cp \<in> set (take (nat (sample_chars self)) (iter_significant t)). in_lang A cp"
  shows "scan (sample_chars self) (iter_significant t) [] 0
           = ([(A, nat (sample_chars self))], nat (sample_chars self))
         \<and> (\<forall>B. B \<noteq> A \<longrightarrow>
               counts_get (fst (scan (sample_chars self) (iter_significant t) [] 0)) B = 0)
         \<and> detect self (Some t) = (A, 1)
         \<and> (\<forall>more. scan (sample_chars self) (iter_significant (t @ more)) [] 0
                      = ([(A, nat (sample_chars self))], nat (sample_chars self))
                  \<and> (cache self (t @ more) = None \<longrightarrow> detect self (Some (t @ more)) = (A, 1)))"
proof -
  let ?n = "nat (sample_chars self)"
  note p = one_lang_prefix[OF assms(1,3,4)]
  have ext: "scan (sample_chars self) (iter_significant (t @ more)) [] 0 = ([(A, ?n)], ?n)
      \<and> (cache self (t @ more) = None \<longrightarrow> detect self (Some (t @ more)) = (A, 1))" for more
  proof -
    have sig: "iter_significant (t @ more) = iter_significant t @ iter_significant more"
      by (simp add: iter_significant_def)
    have l: "?n \<le> length (iter_significant (t @ more))" using assms(3) by (simp add: sig)
    have a: "\<forall>cp \<in> set (take ?n (iter_significant (t @ more))). in_lang A cp"
      using assms(3,4) by (simp add: sig)
    from one_lang_prefix[OF assms(1) l a] show ?thesis by blast
  qed
  from p(1) p(2)[OF assms(2)] ext show ?thesis by (simp add: counts_get_def)
qed

theorem detect_bounded_scan_witness:
  "scan 6 (iter_significant (lit ''Ramesh'' @ [0x0930, 0x093E, 0x092E])) [] 0 = ([(lit ''en'', 6)], 6)
   \<and> detect (new_detector 6 (lit ''en'') None) (Some (lit ''Ramesh'' @ [0x0930, 0x093E, 0x092E]))
       = (lit ''en'', 1)"
  using detect_bounded_scan [of "new_detector 6 (lit ''en'') None"
      "lit ''Ramesh'' @ [0x0930, 0x093E, 0x092E]" "lit ''en''"]
  by (simp add: eval_simps UNICODE_RANGES_def)

text \<open>
  C1, as amended. When the token is not in the cache and at least one scanned character
  is resolved, the winner is the language with the highest count and, among several
  languages with that count, the one whose first character comes earliest among the
  scanned characters (the order in which the counters were created), whatever the order
  of the table; the score is that count divided by the number of scanned characters. In
  particular, when six characters are scanned, three of them in the ranges of \<open>en\<close> and
  three in those of \<open>hi\<close>, the winner is the language of the first scanned character and
  the score is 0.5.
\<close>

theorem detect_tie_first_seen:
  assumes "t \<noteq> []" and "cache self t = None"
    and "resolved (scanned self t) \<noteq> []"
  shows "\<exists>w. first_seen_winner (resolved (scanned self t)) = Some w
           \<and> detect self (Some t)
               = (w, of_nat (max_count (resolved (scanned self t)))
                       / of_nat (length (scanned self t)))
           \<and> (length (scanned self t) = 6
                \<and> length (filter (in_lang (lit ''en'')) (scanned self t)) = 3
                \<and> length (filter (in_lang (lit ''hi'')) (scanned self t)) = 3
               \<longrightarrow> char_lang (hd (scanned self t)) = Some w
                   \<and> detect self (Some t) = (w, 1 / 2))"
proof -
  let ?sc = "scanned self t"
  let ?ls = "resolved ?sc"
  from detect_scan_winner[OF refl assms(3)] obtain w
    where w: "first_seen_winner ?ls = Some w"
      and d: "detect_scan self t = (w, of_nat (max_count ?ls) / of_nat (length ?sc))"
    unfolding first_seen_winner_def by blast
  have dd: "detect self (Some t) = (w, of_nat (max_count ?ls) / of_nat (length ?sc))"
    using d detect_miss[OF assms(1,2)] by simp
  have part: "char_lang (hd ?sc) = Some w \<and> detect self (Some t) = (w, 1 / 2)"
    if six: "length ?sc = 6"
      and e: "length (filter (in_lang (lit ''en'')) ?sc) = 3"
      and h: "length (filter (in_lang (lit ''hi'')) ?sc) = 3"
  proof -
    have "lit ''en'' \<noteq> lit ''hi''" by (simp add: lit_simps)
    from two_scripts_tied[OF six e h this refl] w
    have "max_count ?ls = 3" and "char_lang (hd ?sc) = Some w" by auto
    with dd six show ?thesis by simp
  qed
  from w dd part show ?thesis by blast
qed

theorem detect_tie_first_seen_witness:
  "detect (new_detector 6 (lit ''en'') None) (Some (lit ''abc'' @ [0x0915, 0x0916, 0x0917]))
     = (lit ''en'', 1 / 2)
   \<and> first_seen_winner (resolved (scanned (new_detector 6 (lit ''en'') None)
        (lit ''abc'' @ [0x0915, 0x0916, 0x0917]))) = Some (lit ''en'')"
  using detect_tie_first_seen [of "lit ''abc'' @ [0x0915, 0x0916, 0x0917]"
      "new_detector 6 (lit ''en'') None"]
  by (simp add: eval_simps)

text \<open>
  The claim C1 as it is written fails on the token \<open>abc\<close> followed by three Devanagari
  letters: both languages reach the count 3, \<open>hi\<close> is the first of the two in the order
  of the table, and \<open>detect\<close> returns \<open>en\<close>, whose counter was created first.
\<close>

theorem detect_tie_table_order_counterexample:
  "count_list (resolved (scanned (new_detector 6 (lit ''en'') None)
       (lit ''abc'' @ [0x0915, 0x0916, 0x0917]))) (lit ''en'') = 3
   \<and> count_list (resolved (scanned (new_detector 6 (lit ''en'') None)
       (lit ''abc'' @ [0x0915, 0x0916, 0x0917]))) (lit ''hi'') = 3
   \<and> table_order_winner (resolved (scanned (new_detector 6 (lit ''en'') None)
       (lit ''abc'' @ [0x0915, 0x0916, 0x0917]))) = Some (lit ''hi'')
   \<and> detect (new_detector 6 (lit ''en'') None) (Some (lit ''abc'' @ [0x0915, 0x0916, 0x0917]))
       = (lit ''en'', 1 / 2)
   \<and> lit ''en'' \<noteq> lit ''hi''"
  by (simp add: eval_simps UNICODE_RANGES_def)

section \<open>The claims about the cache\<close>

lemma post_init_dirty: "post_init fs self = Inr d \<Longrightarrow> dirty d = dirty self"
  unfolding post_init_def by (auto split: option.splits if_splits content.splits)

lemma constructed_clean: "ScriptDetector fs n code file = Inr d \<Longrightarrow> \<not> dirty d"
  unfolding ScriptDetector_def using post_init_dirty[of fs "new_detector n code file" d]
  by (simp add: new_detector_def)

lemma insert_pending_Nil: "\<not> insert_pending []"
  by (simp add: insert_pending_def)

lemma insert_pending_Insert: "insert_pending (tr @ [Insert p l])"
  by (simp add: insert_pending_def)

lemma insert_pending_Write: "\<not> insert_pending (tr @ [Write p m])"
  by (simp add: insert_pending_def)

lemma add_sets_dirty: "dirty (det (add_to_cache p l w))"
  by (simp add: add_to_cache_def)

lemma flush_clears_dirty: "has_target (det w) \<Longrightarrow> \<not> dirty (det (flush_cache w))"
  by (auto simp: flush_cache_def has_target_def split: option.splits)

lemma flush_noop: "\<not> dirty (det w) \<or> \<not> has_target (det w) \<Longrightarrow> flush_cache w = w"
  by (auto simp: flush_cache_def has_target_def split: option.splits)

lemma apply_op_invariant:
  assumes "dirty (det w) \<longleftrightarrow> insert_pending (trace w)"
  shows "dirty (det (apply_op x w)) \<longleftrightarrow> insert_pending (trace (apply_op x w))"
proof (cases x)
  case (Add p l)
  then show ?thesis by (simp add: add_to_cache_def insert_pending_Insert)
next
  case Flush
  show ?thesis
  proof (cases "dirty (det w) \<and> has_target (det w)")
    case True
    then show ?thesis using Flush
      by (auto simp: flush_cache_def has_target_def insert_pending_Write split: option.splits)
  next
    case False
    then have "flush_cache w = w" using flush_noop by blast
    with assms Flush show ?thesis by simp
  qed
qed

lemma run_ops_invariant:
  "(dirty (det w) \<longleftrightarrow> insert_pending (trace w)) \<Longrightarrow>
   (dirty (det (run_ops ops w)) \<longleftrightarrow> insert_pending (trace (run_ops ops w)))"
  unfolding run_ops_def
proof (induction ops arbitrary: w)
  case Nil
  then show ?case by simp
next
  case (Cons x ops)
  from Cons.IH[OF apply_op_invariant[OF Cons.prems]] show ?case by simp
qed

text \<open>
  C8. After a successful construction and any sequence of inserts and flushes, \<open>_dirty\<close>
  is true exactly when the log holds an insert after the last write of the snapshot
  (after the start, when nothing was written). Every insert sets \<open>_dirty\<close>, also one
  that stores a pair the cache already holds; a flush with a persistence target leaves
  \<open>_dirty\<close> false; a flush without a pending insert or without a target changes
  nothing.
\<close>

theorem dirty_flag_invariant:
  assumes "ScriptDetector fs n code file = Inr d"
    and "det w0 = d" and "trace w0 = []"
  shows "(dirty (det (run_ops ops w0)) \<longleftrightarrow> insert_pending (trace (run_ops ops w0)))
       \<and> (\<forall>p l. dirty (det (add_to_cache p l w)))
       \<and> (has_target (det w) \<longrightarrow> \<not> dirty (det (flush_cache w)))
       \<and> (\<not> dirty (det w) \<or> \<not> has_target (det w) \<longrightarrow> flush_cache w = w)"
proof -
  have "dirty (det w0) \<longleftrightarrow> insert_pending (trace w0)"
    using constructed_clean[OF assms(1)] assms(2,3) by (simp add: insert_pending_Nil)
  from run_ops_invariant[OF this] show ?thesis
    using add_sets_dirty flush_clears_dirty flush_noop by blast
qed

theorem dirty_flag_invariant_witness:
  "dirty (det (run_ops [Add (lit ''Ramesh'') (lit ''en''), Flush, Add (lit ''Ramesh'') (lit ''en'')]
      \<lparr>det = new_detector 6 (lit ''en'') (Some (lit ''c.json'')), files = Map.empty,
        frames = (\<lambda>r. ([] :: unit frame)), pandas = True, trace = []\<rparr>))
   \<and> \<not> dirty (det (run_ops [Add (lit ''Ramesh'') (lit ''en''), Flush]
      \<lparr>det = new_detector 6 (lit ''en'') (Some (lit ''c.json'')), files = Map.empty,
        frames = (\<lambda>r. ([] :: unit frame)), pandas = True, trace = []\<rparr>))
   \<and> insert_pending (trace (run_ops [Add (lit ''Ramesh'') (lit ''en''), Flush, Add (lit ''Ramesh'') (lit ''en'')]
      \<lparr>det = new_detector 6 (lit ''en'') (Some (lit ''c.json'')), files = Map.empty,
        frames = (\<lambda>r. ([] :: unit frame)), pandas = True, trace = []\<rparr>))"
  using dirty_flag_invariant [of Map.empty 6 "lit ''en''" "Some (lit ''c.json'')"
      "new_detector 6 (lit ''en'') (Some (lit ''c.json''))"
      "\<lparr>det = new_detector 6 (lit ''en'') (Some (lit ''c.json'')), files = Map.empty,
        frames = (\<lambda>r. ([] :: unit frame)), pandas = True, trace = []\<rparr>"
      "[Add (lit ''Ramesh'') (lit ''en''), Flush, Add (lit ''Ramesh'') (lit ''en'')]"]
  by (simp add: ScriptDetector_def post_init_def new_detector_def truthy_def lit_simps
      run_ops_def add_to_cache_def flush_cache_def insert_pending_def)

text \<open>
  C3. The constructor catches \<open>JSONDecodeError\<close> only. A snapshot file that is not
  valid UTF-8 makes \<open>read_text\<close> raise \<open>UnicodeDecodeError\<close>, and one that holds a JSON
  value such as \<open>null\<close> or a number makes \<open>dict.update\<close> raise \<open>TypeError\<close>: the
  construction fails. Text that is not JSON is ignored, as a missing file is.
\<close>

theorem construct_corrupt_snapshot:
  "ScriptDetector [lit ''c.json'' \<mapsto> NotUTF8] 6 (lit ''en'') (Some (lit ''c.json''))
     = Inl UnicodeDecodeError
   \<and> ScriptDetector [lit ''c.json'' \<mapsto> JsonScalar] 6 (lit ''en'') (Some (lit ''c.json''))
     = Inl TypeError
   \<and> ScriptDetector [lit ''c.json'' \<mapsto> NotJSON] 6 (lit ''en'') (Some (lit ''c.json''))
     = ScriptDetector Map.empty 6 (lit ''en'') (Some (lit ''c.json''))
   \<and> ScriptDetector Map.empty 6 (lit ''en'') (Some (lit ''c.json''))
     = Inr (new_detector 6 (lit ''en'') (Some (lit ''c.json'')))"
  by (simp add: ScriptDetector_def post_init_def new_detector_def truthy_def lit_simps)

section \<open>The passes of \<open>annotate_frame\<close>\<close>

lemma detects_append: "detects (a @ b) = detects a @ detects b"
  by (induction a rule: detects.induct) auto

lemma writes_append: "writes (a @ b) = writes a @ writes b"
  by (induction a rule: writes.induct) auto

lemma columns_set_append: "columns_set (a @ b) = columns_set a @ columns_set b"
  by (induction a rule: columns_set.induct) auto

lemma lang_col_inj: "lang_col a = lang_col b \<Longrightarrow> a = b"
  by (simp add: lang_col_def)

lemma lang_col_neq: "lang_col a \<noteq> a"
proof
  assume "lang_col a = a"
  then have "length (lang_col a) = length a" by simp
  then show False by (simp add: lang_col_def lit_simps)
qed

lemma detect_scan_cong:
  "sample_chars d' = sample_chars d \<Longrightarrow> default_code d' = default_code d \<Longrightarrow>
     detect_scan d' t = detect_scan d t"
  unfolding detect_scan_def by (simp split: prod.splits list.splits)

lemma label_add:
  assumes "lang = label d val"
  shows "label (d\<lparr>cache := (cache d)(val \<mapsto> lang), dirty := True\<rparr>) v = label d v"
proof -
  let ?d' = "d\<lparr>cache := (cache d)(val \<mapsto> lang), dirty := True\<rparr>"
  have sc: "detect_scan ?d' u = detect_scan d u" for u
    by (rule detect_scan_cong) simp_all
  show ?thesis
  proof (cases "v = val")
    case False
    then show ?thesis by (simp add: label_def detect_def sc split: option.splits)
  next
    case True
    show ?thesis
    proof (cases "truthy val")
      case False
      then show ?thesis using True by (simp add: label_def detect_def)
    next
      case tv: True
      show ?thesis
      proof (cases "truthy lang")
        case True
        then show ?thesis using tv \<open>v = val\<close> assms by (simp add: label_def detect_def)
      next
        case False
        with assms tv have b: "fst (detect_scan d val) = lang"
          by (auto simp: label_def detect_def split: option.splits if_splits)
        have "label ?d' val = fst (detect_scan ?d' val)"
          using tv False by (simp add: label_def detect_def)
        also have "\<dots> = lang" by (simp only: sc b)
        finally show ?thesis using \<open>v = val\<close> assms by simp
      qed
    qed
  qed
qed

lemma classify_value_props:
  assumes "classify_value auto thr val w = (lang, w')"
  shows "lang = label (det w) val"
    and "frames w' = frames w" and "files w' = files w" and "pandas w' = pandas w"
    and "label (det w') v = label (det w) v"
    and "\<exists>evs. trace w' = trace w @ evs \<and> detects evs = [val] \<and> writes evs = []
           \<and> columns_set evs = []"
proof -
  obtain l s where ls: "detect (det w) (Some val) = (l, s)" by (cases "detect (det w) (Some val)")
  have l: "l = label (det w) val" by (simp add: label_def ls)
  from assms ls have lang: "lang = l" by (simp add: classify_value_def Let_def)
  show "lang = label (det w) val" using lang l by simp
  show "frames w' = frames w" "files w' = files w" "pandas w' = pandas w"
    using assms ls by (auto simp: classify_value_def Let_def add_to_cache_def split: if_splits)
  show "label (det w') v = label (det w) v"
    using assms ls label_add[OF l, of v]
    by (auto simp: classify_value_def Let_def add_to_cache_def split: if_splits)
  show "\<exists>evs. trace w' = trace w @ evs \<and> detects evs = [val] \<and> writes evs = []
           \<and> columns_set evs = []"
  proof (cases "auto \<and> s \<ge> thr")
    case True
    with assms ls have "trace w' = trace w @ [Detect val, Insert val l]"
      by (auto simp: classify_value_def Let_def add_to_cache_def)
    then show ?thesis by simp
  next
    case False
    with assms ls have "trace w' = trace w @ [Detect val]"
      by (auto simp: classify_value_def Let_def)
    then show ?thesis by simp
  qed
qed

lemma detect_uniques_props:
  assumes "detect_uniques auto thr vals m w = (m', w')"
  shows "frames w' = frames w \<and> files w' = files w \<and> pandas w' = pandas w
       \<and> (\<forall>v. label (det w') v = label (det w) v)
       \<and> (\<exists>evs. trace w' = trace w @ evs \<and> detects evs = vals \<and> writes evs = []
             \<and> columns_set evs = [])
       \<and> m' = (\<lambda>v. if v \<in> set vals then Some (label (det w) v) else m v)"
  using assms
proof (induction vals arbitrary: m w)
  case Nil
  then show ?case by auto
next
  case (Cons val vals)
  obtain lang w1 where cv: "classify_value auto thr val w = (lang, w1)"
    by (cases "classify_value auto thr val w")
  with Cons.prems have rest: "detect_uniques auto thr vals (m(val \<mapsto> lang)) w1 = (m', w')"
    by simp
  note p = classify_value_props[OF cv]
  note ih = Cons.IH[OF rest]
  from p(6) obtain e1 where e1: "trace w1 = trace w @ e1" "detects e1 = [val]"
    "writes e1 = []" "columns_set e1 = []" by blast
  from ih obtain e2 where e2: "trace w' = trace w1 @ e2" "detects e2 = vals"
    "writes e2 = []" "columns_set e2 = []" by blast
  have tr: "trace w' = trace w @ (e1 @ e2) \<and> detects (e1 @ e2) = val # vals
      \<and> writes (e1 @ e2) = [] \<and> columns_set (e1 @ e2) = []"
    using e1 e2 by (simp add: detects_append writes_append columns_set_append)
  have lab: "\<forall>v. label (det w') v = label (det w) v" using ih p(5) by simp
  have m': "m' = (\<lambda>v. if v \<in> set (val # vals) then Some (label (det w) v) else m v)"
  proof
    fix v
    from ih have "m' v = (if v \<in> set vals then Some (label (det w1) v) else (m(val \<mapsto> lang)) v)"
      by simp
    then show "m' v = (if v \<in> set (val # vals) then Some (label (det w) v) else m v)"
      using p(1) p(5) by auto
  qed
  from ih p(2,3,4) tr lab m' show ?case by (intro conjI) (simp, simp, simp, simp, blast, simp)
qed

lemma series_map_labels:
  "series_map (\<lambda>v. if v \<in> set (unique ser) then Some (f v) else None) ser = map (\<lambda>v. Str (f v)) ser"
  by (simp add: series_map_def set_unique)

lemma annotate_column_missing:
  "map_of (frames w df) col = None \<Longrightarrow>
     annotate_column str_of df auto thr col w = (Inl (KeyError col), w)"
  by (simp add: annotate_column_def)

lemma annotate_column_present:
  assumes "map_of (frames w df) col = Some cells"
  shows "\<exists>w'. annotate_column str_of df auto thr col w = (Inr (), w')
      \<and> frames w' = (frames w)(df := AList.update (lang_col col)
            (map (\<lambda>v. Str (label (det w) v)) (ser_of str_of (frames w df) col)) (frames w df))
      \<and> files w' = files w \<and> pandas w' = pandas w
      \<and> (\<forall>v. label (det w') v = label (det w) v)
      \<and> (\<exists>evs. trace w' = trace w @ evs
            \<and> detects evs = unique (ser_of str_of (frames w df) col)
            \<and> writes evs = [] \<and> columns_set evs = [lang_col col])"
proof -
  let ?ser = "map (astype_str str_of) cells"
  have ser: "ser_of str_of (frames w df) col = ?ser" using assms by (simp add: ser_of_def)
  obtain m' w1 where du: "detect_uniques auto thr (unique ?ser) Map.empty w = (m', w1)"
    by (cases "detect_uniques auto thr (unique ?ser) Map.empty w")
  note p = detect_uniques_props[OF du]
  from p obtain e1 where e1: "trace w1 = trace w @ e1" "detects e1 = unique ?ser"
    "writes e1 = []" "columns_set e1 = []" by blast
  from p have m': "m' = (\<lambda>v. if v \<in> set (unique ?ser) then Some (label (det w) v) else None)"
    by simp
  let ?w' = "w1\<lparr>frames := (frames w1)(df := AList.update (lang_col col) (series_map m' ?ser) (frames w1 df)),
                trace := trace w1 @ [SetColumn (lang_col col)]\<rparr>"
  have res: "annotate_column str_of df auto thr col w = (Inr (), ?w')"
    using assms du by (simp add: annotate_column_def Let_def)
  have fr: "frames ?w' = (frames w)(df := AList.update (lang_col col)
            (map (\<lambda>v. Str (label (det w) v)) ?ser) (frames w df))"
    using p by (simp add: m' series_map_labels)
  have tr: "trace ?w' = trace w @ (e1 @ [SetColumn (lang_col col)])
      \<and> detects (e1 @ [SetColumn (lang_col col)]) = unique ?ser
      \<and> writes (e1 @ [SetColumn (lang_col col)]) = []
      \<and> columns_set (e1 @ [SetColumn (lang_col col)]) = [lang_col col]"
    using e1 by (simp add: detects_append writes_append columns_set_append)
  have others: "files ?w' = files w \<and> pandas ?w' = pandas w
      \<and> (\<forall>v. label (det ?w') v = label (det w) v)"
    using p by simp
  show ?thesis
    apply (rule exI[of _ ?w'])
    apply (simp only: ser)
    using res fr tr others by blast
qed

lemma annotate_columns_props:
  assumes "annotate_columns str_of df auto thr cols w = (res, w')"
  shows "files w' = files w \<and> pandas w' = pandas w
       \<and> (\<forall>v. label (det w') v = label (det w) v)
       \<and> (\<forall>r. r \<noteq> df \<longrightarrow> frames w' r = frames w r)
       \<and> (\<forall>k. k \<notin> lang_col ` set cols \<longrightarrow> map_of (frames w' df) k = map_of (frames w df) k)
       \<and> (\<exists>new. map fst (frames w' df) = map fst (frames w df) @ new)
       \<and> (\<exists>evs. trace w' = trace w @ evs \<and> writes evs = []
             \<and> (res = Inr () \<longrightarrow> columns_set evs = map lang_col cols))
       \<and> (res = Inr () \<longrightarrow> (\<forall>c \<in> set cols. lang_col c \<in> fst ` set (frames w' df)))"
  using assms
proof (induction cols arbitrary: w)
  case Nil
  then show ?case by auto
next
  case (Cons c cols)
  show ?case
  proof (cases "map_of (frames w df) c")
    case None
    with Cons.prems have "res = Inl (KeyError c)" "w' = w"
      by (simp_all add: annotate_column_missing)
    then show ?thesis by auto
  next
    case (Some cells)
    from annotate_column_present[OF Some, of str_of auto thr] obtain w1 e1 where
      ac: "annotate_column str_of df auto thr c w = (Inr (), w1)"
      and fr1: "frames w1 = (frames w)(df := AList.update (lang_col c)
            (map (\<lambda>v. Str (label (det w) v)) (ser_of str_of (frames w df) c)) (frames w df))"
      and o1: "files w1 = files w" "pandas w1 = pandas w"
        "\<forall>v. label (det w1) v = label (det w) v"
      and e1: "trace w1 = trace w @ e1" "writes e1 = []" "columns_set e1 = [lang_col c]"
      by blast
    from Cons.prems ac have rest: "annotate_columns str_of df auto thr cols w1 = (res, w')"
      by simp
    note ih = Cons.IH[OF rest]
    from ih obtain e2 where e2: "trace w' = trace w1 @ e2" "writes e2 = []"
      "res = Inr () \<longrightarrow> columns_set e2 = map lang_col cols" by blast
    from ih obtain new2 where new2: "map fst (frames w' df) = map fst (frames w1 df) @ new2"
      by blast
    have k1: "map fst (frames w1 df) = map fst (frames w df)
        @ (if lang_col c \<in> set (map fst (frames w df)) then [] else [lang_col c])"
      by (simp add: fr1 keys_update)
    have in1: "lang_col c \<in> set (map fst (frames w1 df))" using k1 by auto
    have a: "files w' = files w \<and> pandas w' = pandas w
        \<and> (\<forall>v. label (det w') v = label (det w) v)"
      using ih o1 by simp
    have b: "\<forall>r. r \<noteq> df \<longrightarrow> frames w' r = frames w r"
      using ih fr1 by simp
    have c': "\<forall>k. k \<notin> lang_col ` set (c # cols) \<longrightarrow> map_of (frames w' df) k = map_of (frames w df) k"
      using ih fr1 by (simp add: update_conv')
    have d: "\<exists>new. map fst (frames w' df) = map fst (frames w df) @ new"
      using new2 k1 by simp
    have e: "\<exists>evs. trace w' = trace w @ evs \<and> writes evs = []
        \<and> (res = Inr () \<longrightarrow> columns_set evs = map lang_col (c # cols))"
      apply (rule exI[of _ "e1 @ e2"])
      using e1 e2 by (simp add: writes_append columns_set_append)
    have f: "res = Inr () \<longrightarrow> (\<forall>x \<in> set (c # cols). lang_col x \<in> fst ` set (frames w' df))"
    proof (intro impI ballI)
      fix x assume r: "res = Inr ()" and x: "x \<in> set (c # cols)"
      show "lang_col x \<in> fst ` set (frames w' df)"
      proof (cases "x \<in> set cols")
        case True
        with ih r show ?thesis by blast
      next
        case False
        with x have "x = c" by simp
        with in1 new2 have "lang_col x \<in> set (map fst (frames w' df))" by simp
        then show ?thesis by simp
      qed
    qed
    from a b c' d e f show ?thesis by blast
  qed
qed

lemma ser_of_cong: "map_of fr c = map_of fr' c \<Longrightarrow> ser_of str_of fr c = ser_of str_of fr' c"
  by (simp add: ser_of_def)

lemma annotate_columns_labels:
  assumes "annotate_columns str_of df auto thr cols w = (Inr (), w')"
    and "set cols \<inter> lang_col ` set cols = {}"
  shows "(\<forall>c \<in> set cols. map_of (frames w' df) (lang_col c)
            = Some (map (\<lambda>v. Str (label (det w) v)) (ser_of str_of (frames w df) c)))
       \<and> (\<exists>evs. trace w' = trace w @ evs
             \<and> detects evs = concat (map (\<lambda>c. unique (ser_of str_of (frames w df) c)) cols))"
  using assms
proof (induction cols arbitrary: w)
  case Nil
  then show ?case by auto
next
  case (Cons c cols)
  show ?case
  proof (cases "map_of (frames w df) c")
    case None
    with Cons.prems(1) show ?thesis by (simp add: annotate_column_missing)
  next
    case (Some cells)
    let ?out = "map (\<lambda>v. Str (label (det w) v)) (ser_of str_of (frames w df) c)"
    from annotate_column_present[OF Some, of str_of auto thr] obtain w1 e1 where
      ac: "annotate_column str_of df auto thr c w = (Inr (), w1)"
      and fr1: "frames w1 = (frames w)(df := AList.update (lang_col c) ?out (frames w df))"
      and l1: "\<forall>v. label (det w1) v = label (det w) v"
      and e1: "trace w1 = trace w @ e1" "detects e1 = unique (ser_of str_of (frames w df) c)"
      by blast
    from Cons.prems(1) ac have rest: "annotate_columns str_of df auto thr cols w1 = (Inr (), w')"
      by simp
    from Cons.prems(2) have disj: "set cols \<inter> lang_col ` set cols = {}" by auto
    note ih = Cons.IH[OF rest disj]
    have same: "ser_of str_of (frames w1 df) x = ser_of str_of (frames w df) x"
      if "x \<in> set cols" for x
    proof -
      from that Cons.prems(2) have "x \<noteq> lang_col c" by auto
      then have "map_of (frames w1 df) x = map_of (frames w df) x"
        by (simp add: fr1 update_conv')
      then show ?thesis by (rule ser_of_cong)
    qed
    have lab: "(\<lambda>v. Str (label (det w1) v)) = (\<lambda>v. Str (label (det w) v))"
      using l1 by auto
    have A: "\<forall>x \<in> set (c # cols). map_of (frames w' df) (lang_col x)
            = Some (map (\<lambda>v. Str (label (det w) v)) (ser_of str_of (frames w df) x))"
    proof
      fix x assume x: "x \<in> set (c # cols)"
      show "map_of (frames w' df) (lang_col x)
            = Some (map (\<lambda>v. Str (label (det w) v)) (ser_of str_of (frames w df) x))"
      proof (cases "x \<in> set cols")
        case True
        with ih have "map_of (frames w' df) (lang_col x)
            = Some (map (\<lambda>v. Str (label (det w1) v)) (ser_of str_of (frames w1 df) x))"
          by blast
        then show ?thesis by (simp only: lab same[OF True])
      next
        case False
        with x have xc: "x = c" by simp
        from False xc have "lang_col c \<notin> lang_col ` set cols"
          using lang_col_inj by blast
        with annotate_columns_props[OF rest]
        have "map_of (frames w' df) (lang_col c) = map_of (frames w1 df) (lang_col c)"
          by blast
        also have "\<dots> = Some ?out" by (simp add: fr1 update_conv')
        finally show ?thesis using xc by simp
      qed
    qed
    from ih obtain e2 where e2: "trace w' = trace w1 @ e2"
      "detects e2 = concat (map (\<lambda>c. unique (ser_of str_of (frames w1 df) c)) cols)"
      by blast
    have "map (\<lambda>c. unique (ser_of str_of (frames w1 df) c)) cols
        = map (\<lambda>c. unique (ser_of str_of (frames w df) c)) cols"
      using same by (intro map_cong) auto
    with e2 have e2': "detects e2 = concat (map (\<lambda>c. unique (ser_of str_of (frames w df) c)) cols)"
      by simp
    have B: "\<exists>evs. trace w' = trace w @ evs
             \<and> detects evs = concat (map (\<lambda>c. unique (ser_of str_of (frames w df) c)) (c # cols))"
      apply (rule exI[of _ "e1 @ e2"])
      using e1 e2(1) e2' by (simp add: detects_append)
    from A B show ?thesis by blast
  qed
qed

lemma annotate_columns_ok:
  assumes "\<forall>c \<in> set cols. map_of (frames w df) c \<noteq> None"
  shows "fst (annotate_columns str_of df auto thr cols w) = Inr ()"
  using assms
proof (induction cols arbitrary: w)
  case Nil
  then show ?case by simp
next
  case (Cons c cols)
  then obtain cells where Some: "map_of (frames w df) c = Some cells" by auto
  from annotate_column_present[OF Some, of str_of auto thr] obtain w1 where
    ac: "annotate_column str_of df auto thr c w = (Inr (), w1)"
    and fr1: "frames w1 = (frames w)(df := AList.update (lang_col c)
          (map (\<lambda>v. Str (label (det w) v)) (ser_of str_of (frames w df) c)) (frames w df))"
    by blast
  have "\<forall>x \<in> set cols. map_of (frames w1 df) x \<noteq> None"
    using Cons.prems by (auto simp: fr1 update_conv')
  from Cons.IH[OF this] ac show ?case by simp
qed

lemma annotate_columns_present:
  assumes "annotate_columns str_of df auto thr cols w = (Inr (), w')"
    and "set cols \<inter> lang_col ` set cols = {}"
  shows "\<forall>c \<in> set cols. map_of (frames w df) c \<noteq> None"
  using assms
proof (induction cols arbitrary: w)
  case Nil
  then show ?case by simp
next
  case (Cons c cols)
  show ?case
  proof (cases "map_of (frames w df) c")
    case None
    with Cons.prems(1) show ?thesis by (simp add: annotate_column_missing)
  next
    case (Some cells)
    from annotate_column_present[OF Some, of str_of auto thr] obtain w1 where
      ac: "annotate_column str_of df auto thr c w = (Inr (), w1)"
      and fr1: "frames w1 = (frames w)(df := AList.update (lang_col c)
          (map (\<lambda>v. Str (label (det w) v)) (ser_of str_of (frames w df) c)) (frames w df))"
      by blast
    from Cons.prems(1) ac have rest: "annotate_columns str_of df auto thr cols w1 = (Inr (), w')"
      by simp
    from Cons.prems(2) have disj: "set cols \<inter> lang_col ` set cols = {}" by auto
    have "map_of (frames w df) x \<noteq> None" if "x \<in> set cols" for x
    proof -
      from that Cons.prems(2) have "x \<noteq> lang_col c" by auto
      then have "map_of (frames w1 df) x = map_of (frames w df) x"
        by (simp add: fr1 update_conv')
      moreover from Cons.IH[OF rest disj] that have "map_of (frames w1 df) x \<noteq> None"
        by blast
      ultimately show ?thesis by simp
    qed
    with Some show ?thesis by auto
  qed
qed

lemma annotate_frame_success:
  assumes "annotate_frame str_of df cols auto thr w = (Inr r, w')"
  shows "\<exists>w1. annotate_columns str_of df auto thr cols w = (Inr (), w1)
           \<and> r = df \<and> w' = (if auto then flush_cache w1 else w1)"
  using assms unfolding annotate_frame_def
  by (auto split: if_splits prod.splits sum.splits)

lemma annotate_frame_ok:
  assumes "pandas w" and "\<forall>c \<in> set cols. map_of (frames w df) c \<noteq> None"
  shows "fst (annotate_frame str_of df cols auto thr w) = Inr df"
proof -
  obtain res w1 where ac: "annotate_columns str_of df auto thr cols w = (res, w1)"
    by (cases "annotate_columns str_of df auto thr cols w")
  with annotate_columns_ok[OF assms(2), of str_of auto thr] have "res = Inr ()" by simp
  with ac assms(1) show ?thesis by (simp add: annotate_frame_def)
qed

lemma flush_cache_props:
  "frames (flush_cache w) = frames w \<and> cache (det (flush_cache w)) = cache (det w)
   \<and> (trace (flush_cache w) = trace w
        \<or> (\<exists>p. trace (flush_cache w) = trace w @ [Write p (cache (det w))]))"
  by (auto simp: flush_cache_def split: option.splits)

lemma distinct_count_one: "distinct xs \<Longrightarrow> x \<in> set xs \<Longrightarrow> count_list xs x = 1"
  by (induction xs) (auto simp: count_list_0_iff)

section \<open>The claims about \<open>annotate_frame\<close>\<close>

text \<open>
  C7. In the log of one call of \<open>annotate_frame\<close> the snapshot is written at most
  once. A write happens only with \<open>auto_cache\<close>, it is the last event of the call, the
  call returns the frame, and before the write every requested column has received its
  label column, in the order of the request; the passes over the values and the columns
  write nothing. The dict that is written is the cache as the call leaves it.
\<close>

theorem flush_once_per_frame:
  assumes "annotate_frame str_of df cols auto thr w = (res, w')"
  shows "\<exists>evs ws. trace w' = trace w @ evs @ ws
           \<and> writes evs = []
           \<and> (ws = [] \<or> (\<exists>p. auto \<and> ws = [Write p (cache (det w'))] \<and> res = Inr df
                              \<and> columns_set evs = map lang_col cols))
           \<and> length (writes (trace w')) \<le> length (writes (trace w)) + 1"
proof (cases "pandas w")
  case False
  with assms have "w' = w" by (simp add: annotate_frame_def)
  then show ?thesis by simp
next
  case True
  obtain r1 w1 where ac: "annotate_columns str_of df auto thr cols w = (r1, w1)"
    by (cases "annotate_columns str_of df auto thr cols w")
  from annotate_columns_props[OF ac] obtain evs where
    evs: "trace w1 = trace w @ evs" "writes evs = []"
      "r1 = Inr () \<longrightarrow> columns_set evs = map lang_col cols" by blast
  show ?thesis
  proof (cases r1)
    case (Inl e)
    with assms ac True have "w' = w1" by (simp add: annotate_frame_def)
    with evs show ?thesis by (intro exI[of _ evs] exI[of _ "[]"]) (simp add: writes_append)
  next
    case (Inr u)
    with assms ac True have res: "res = Inr df" and w': "w' = (if auto then flush_cache w1 else w1)"
      by (simp_all add: annotate_frame_def)
    from Inr evs have cs: "columns_set evs = map lang_col cols" by simp
    show ?thesis
    proof (cases "trace w' = trace w1")
      case True
      with evs show ?thesis by (intro exI[of _ evs] exI[of _ "[]"]) (simp add: writes_append)
    next
      case False
      with w' have a: "auto" and f: "w' = flush_cache w1" by (auto split: if_splits)
      from flush_cache_props[of w1] False f obtain p where
        p: "trace w' = trace w1 @ [Write p (cache (det w'))]" by auto
      show ?thesis
        apply (rule exI[of _ evs])
        apply (rule exI[of _ "[Write p (cache (det w'))]"])
        using p evs cs a res by (simp add: writes_append)
    qed
  qed
qed

lemmas frame_eval =
  annotate_frame_def annotate_column_def classify_value_def add_to_cache_def flush_cache_def
  unique_def series_map_def astype_str_def lang_col_def example_world_def example_frame_def
  Let_def

theorem flush_once_per_frame_witness:
  "length (writes (trace (snd (annotate_frame (\<lambda>u. lit ''7'') 0 [lit ''Name'', lit ''Age''] True (19 / 20)
      example_world)))) = 1
   \<and> columns_set (trace (snd (annotate_frame (\<lambda>u. lit ''7'') 0 [lit ''Name'', lit ''Age''] True (19 / 20)
      example_world))) = [lit ''Name_lang'', lit ''Age_lang'']
   \<and> is_Write (last (trace (snd (annotate_frame (\<lambda>u. lit ''7'') 0 [lit ''Name'', lit ''Age''] True (19 / 20)
      example_world))))"
  using flush_once_per_frame [of "\<lambda>u. lit ''7''" 0 "[lit ''Name'', lit ''Age'']" True "19 / 20"
      example_world
      "fst (annotate_frame (\<lambda>u. lit ''7'') 0 [lit ''Name'', lit ''Age''] True (19 / 20) example_world)"
      "snd (annotate_frame (\<lambda>u. lit ''7'') 0 [lit ''Name'', lit ''Age''] True (19 / 20) example_world)"]
  by (simp add: frame_eval eval_simps)

text \<open>
  C10. A call of \<open>annotate_frame\<close> that returns gives back the reference it was given,
  and the frame behind that reference has changed in place: it holds a column \<open>c_lang\<close>
  for every requested column \<open>c\<close>; every column with another name holds what it held
  before (and a name that was absent is still absent); the columns that were there keep
  their places, new ones come after them. No other frame is touched.
\<close>

theorem annotate_frame_in_place:
  assumes "annotate_frame str_of df cols auto thr w = (Inr r, w')"
  shows "r = df
       \<and> (\<forall>c \<in> set cols. lang_col c \<in> fst ` set (frames w' df))
       \<and> (\<forall>k. k \<notin> lang_col ` set cols \<longrightarrow> map_of (frames w' df) k = map_of (frames w df) k)
       \<and> (\<exists>new. map fst (frames w' df) = map fst (frames w df) @ new)
       \<and> (\<forall>r'. r' \<noteq> df \<longrightarrow> frames w' r' = frames w r')"
proof -
  from annotate_frame_success[OF assms] obtain w1 where
    ac: "annotate_columns str_of df auto thr cols w = (Inr (), w1)"
    and r: "r = df" and w': "w' = (if auto then flush_cache w1 else w1)" by blast
  have fr: "frames w' = frames w1" using w' flush_cache_props[of w1] by simp
  from annotate_columns_props[OF ac] r show ?thesis by (simp only: fr) blast
qed

theorem annotate_frame_in_place_witness:
  "fst (annotate_frame (\<lambda>u. lit ''7'') 0 [lit ''Name''] True (19 / 20) example_world) = Inr 0
   \<and> map fst (frames (snd (annotate_frame (\<lambda>u. lit ''7'') 0 [lit ''Name''] True (19 / 20)
        example_world)) 0) = [lit ''Name'', lit ''Age'', lit ''Name_lang'']
   \<and> map_of (frames (snd (annotate_frame (\<lambda>u. lit ''7'') 0 [lit ''Name''] True (19 / 20)
        example_world)) 0) (lit ''Age'') = Some [Obj (), NaN, Obj ()]"
  using annotate_frame_in_place [of "\<lambda>u. lit ''7''" 0 "[lit ''Name'']" True "19 / 20"
      example_world 0
      "snd (annotate_frame (\<lambda>u. lit ''7'') 0 [lit ''Name''] True (19 / 20) example_world)"]
  by (simp add: frame_eval eval_simps)

text \<open>
  C9. In a call of \<open>annotate_frame\<close> that returns and in which no requested column is
  itself the label column of a requested column, every requested column \<open>c\<close> gets a
  label column with one label for each of its cells, in the order of the cells: the
  language \<open>detect\<close> gives to the string of the cell. So the label column is as long as
  the column, and two cells with the same string have the same label. The values
  classified during the call are, column after column, the distinct strings of the
  column in the order of their first appearance, each of them once.
\<close>

theorem annotate_frame_labels:
  assumes "annotate_frame str_of df cols auto thr w = (Inr r, w')"
    and "set cols \<inter> lang_col ` set cols = {}" and "c \<in> set cols"
  shows "\<exists>cells out. map_of (frames w df) c = Some cells
           \<and> map_of (frames w' df) (lang_col c) = Some out
           \<and> out = map (\<lambda>x. Str (label (det w) (astype_str str_of x))) cells
           \<and> length out = length cells
           \<and> (\<forall>i < length cells. \<forall>j < length cells.
                 astype_str str_of (cells ! i) = astype_str str_of (cells ! j)
                 \<longrightarrow> out ! i = out ! j)
           \<and> detects (drop (length (trace w)) (trace w'))
               = concat (map (\<lambda>x. unique (ser_of str_of (frames w df) x)) cols)
           \<and> (\<forall>v \<in> set (ser_of str_of (frames w df) c).
                 count_list (unique (ser_of str_of (frames w df) c)) v = 1)"
proof -
  from annotate_frame_success[OF assms(1)] obtain w1 where
    ac: "annotate_columns str_of df auto thr cols w = (Inr (), w1)"
    and w': "w' = (if auto then flush_cache w1 else w1)" by blast
  have fr: "frames w' = frames w1" using w' flush_cache_props[of w1] by simp
  from annotate_columns_present[OF ac assms(2)] assms(3) obtain cells where
    cells: "map_of (frames w df) c = Some cells" by auto
  let ?out = "map (\<lambda>x. Str (label (det w) (astype_str str_of x))) cells"
  note lab = annotate_columns_labels[OF ac assms(2)]
  have ser: "ser_of str_of (frames w df) c = map (astype_str str_of) cells"
    using cells by (simp add: ser_of_def)
  from lab assms(3) have out: "map_of (frames w' df) (lang_col c) = Some ?out"
    by (simp add: fr ser o_def)
  from lab obtain evs where evs: "trace w1 = trace w @ evs"
    "detects evs = concat (map (\<lambda>x. unique (ser_of str_of (frames w df) x)) cols)" by blast
  have "\<exists>ws. trace w' = trace w1 @ ws \<and> detects ws = []"
  proof (cases "trace w' = trace w1")
    case True
    then show ?thesis by simp
  next
    case False
    with w' flush_cache_props[of w1] obtain p where
      "trace w' = trace w1 @ [Write p (cache (det w1))]" by (auto split: if_splits)
    then show ?thesis by simp
  qed
  then obtain ws where ws: "trace w' = trace w1 @ ws" "detects ws = []" by blast
  have det: "detects (drop (length (trace w)) (trace w'))
      = concat (map (\<lambda>x. unique (ser_of str_of (frames w df) x)) cols)"
    using evs ws by (simp add: detects_append)
  have once: "\<forall>v \<in> set (ser_of str_of (frames w df) c).
      count_list (unique (ser_of str_of (frames w df) c)) v = 1"
  proof
    fix v assume "v \<in> set (ser_of str_of (frames w df) c)"
    then have "v \<in> set (unique (ser_of str_of (frames w df) c))" by (simp add: set_unique)
    with distinct_unique show "count_list (unique (ser_of str_of (frames w df) c)) v = 1"
      by (rule distinct_count_one)
  qed
  have same: "\<forall>i < length cells. \<forall>j < length cells.
      astype_str str_of (cells ! i) = astype_str str_of (cells ! j) \<longrightarrow> ?out ! i = ?out ! j"
    by simp
  from cells out det once same show ?thesis by simp
qed

theorem annotate_frame_labels_witness:
  "map_of (frames (snd (annotate_frame (\<lambda>u. lit ''7'') 0 [lit ''Name''] True (19 / 20)
        example_world)) 0) (lit ''Name_lang'')
     = Some [Str (lit ''en''), Str (lit ''hi''), Str (lit ''en'')]
   \<and> detects (trace (snd (annotate_frame (\<lambda>u. lit ''7'') 0 [lit ''Name''] True (19 / 20)
        example_world))) = [lit ''Ram'', [0x0930, 0x093E, 0x092E]]"
proof -
  let ?call = "annotate_frame (\<lambda>u. lit ''7'') 0 [lit ''Name''] True (19 / 20) example_world"
  have "fst ?call = Inr 0"
    by (rule annotate_frame_ok) (simp_all add: example_world_def example_frame_def lit_simps)
  then have h: "?call = (Inr 0, snd ?call)" by (simp add: prod_eq_iff)
  have d: "set [lit ''Name''] \<inter> lang_col ` set [lit ''Name''] = {}"
    by (simp add: lang_col_def lit_simps)
  from annotate_frame_labels[OF h d, of "lit ''Name''"] obtain cells out where
    a: "map_of (frames example_world 0) (lit ''Name'') = Some cells"
    and b: "map_of (frames (snd ?call) 0) (lang_col (lit ''Name'')) = Some out"
    and c: "out = map (\<lambda>x. Str (label (det example_world) (astype_str (\<lambda>u. lit ''7'') x))) cells"
    and e: "detects (drop (length (trace example_world)) (trace (snd ?call)))
        = concat (map (\<lambda>x. unique (ser_of (\<lambda>u. lit ''7'') (frames example_world 0) x))
            [lit ''Name''])"
    by auto
  from a have cells: "cells = [Str (lit ''Ram''), Str [0x0930, 0x093E, 0x092E], Str (lit ''Ram'')]"
    by (simp add: example_world_def example_frame_def lit_simps)
  have out: "out = [Str (lit ''en''), Str (lit ''hi''), Str (lit ''en'')]"
    unfolding c cells
    by (simp add: label_def astype_str_def example_world_def eval_simps)
  have "detects (trace (snd ?call)) = [lit ''Ram'', [0x0930, 0x093E, 0x092E]]"
    using e by (simp add: example_world_def example_frame_def ser_of_def astype_str_def
        unique_def lit_simps)
  with b out show ?thesis by (simp add: lang_col_def lit_simps)
qed

end
